theory Spec2Isabelle
  imports Complex_Main "HOL-Library.Multiset"
begin

section \<open>The packing engine of the cut optimizer\<close>

text \<open>
  A shallow embedding of \<^verbatim>\<open>packPieces\<close> (the maximal-rectangles engine with the
  strategy grid and the consolidation post-pass) and of the helpers nested in it.
  JavaScript numbers are modelled as exact rationals: sums, differences, products and
  comparisons are the mathematical ones, which is what the double arithmetic of the
  source computes on integral and dyadic inputs of moderate size. The closure
  variables \<^verbatim>\<open>sheetW\<close>, \<^verbatim>\<open>sheetH\<close>, \<^verbatim>\<open>kerf\<close> and \<^verbatim>\<open>maxSheets\<close> travel in a record.
\<close>

subsection \<open>Data\<close>

type_synonym num = rat

record config =
  sheetW :: num
  sheetH :: num
  kerf :: num
  maxSheets :: int

text \<open>A piece as the caller builds it; \<open>pid\<close> is the field \<^verbatim>\<open>id\<close>.\<close>

record piece =
  pid :: string
  label :: string
  furniture :: string
  color :: string
  width :: num
  height :: num

text \<open>A free rectangle \<^verbatim>\<open>{x, y, w, h}\<close>.\<close>

record rect =
  rx :: num
  ry :: num
  rw :: num
  rh :: num

text \<open>An entry of \<^verbatim>\<open>sheet.pieces\<close>, as \<^verbatim>\<open>tryPlace\<close> pushes it.\<close>

record placed =
  px :: num
  py :: num
  pw :: num
  ph :: num
  rotated :: bool
  plid :: string
  pllabel :: string
  plfurniture :: string
  plcolor :: string
  origW :: num
  origH :: num

record sheet =
  freeRects :: "rect list"
  pieces :: "placed list"
  usedArea :: num

datatype heuristic = BSSF | BLSF | BAF

record score =
  primary :: num
  secondary :: num
  positionScore :: num

text \<open>The object \<^verbatim>\<open>findBestFit\<close> returns; \<open>None\<close> stands for \<^verbatim>\<open>null\<close>.\<close>

record fit =
  fit_rect :: rect
  fit_w :: num
  fit_h :: num
  fit_rotated :: bool
  fit_score :: score

datatype reason = TooLargeForSheet | NoSheetsRemaining | CouldNotPlace

text \<open>An entry of the unplaced list: the piece's fields spread, plus the reason.\<close>

record unplaced = piece +
  reason :: reason

text \<open>What \<^verbatim>\<open>runStrategy\<close> returns and \<^verbatim>\<open>consolidateSheets\<close> works on.\<close>

record packing =
  sheets :: "sheet list"
  unplacedList :: "unplaced list"

subsection \<open>Free-space tracker\<close>

definition newSheet :: "config \<Rightarrow> sheet" where
  "newSheet cfg =
     \<lparr>freeRects = [\<lparr>rx = 0, ry = 0, rw = sheetW cfg, rh = sheetH cfg\<rparr>],
      pieces = [], usedArea = 0\<rparr>"

definition isContained :: "rect \<Rightarrow> rect \<Rightarrow> bool" where
  "isContained a b \<longleftrightarrow>
     rx a \<ge> rx b \<and> ry a \<ge> ry b \<and>
     rx a + rw a \<le> rx b + rw b \<and>
     ry a + rh a \<le> ry b + rh b"

text \<open>
  The inner loop of \<^verbatim>\<open>pruneFreeRects\<close> for a fixed \<open>i\<close>, from index \<open>j\<close> on;
  leaving the recursion with \<open>keep[i := False]\<close> is the \<^verbatim>\<open>break\<close>.
\<close>

function pruneInner :: "rect list \<Rightarrow> bool list \<Rightarrow> nat \<Rightarrow> nat \<Rightarrow> bool list" where
  "pruneInner rects keep i j =
     (if j < length rects then
        (if \<not> keep ! j then pruneInner rects keep i (j + 1)
         else if isContained (rects ! i) (rects ! j) then keep[i := False]
         else if isContained (rects ! j) (rects ! i)
              then pruneInner rects (keep[j := False]) i (j + 1)
         else pruneInner rects keep i (j + 1))
      else keep)"
  by pat_completeness auto
termination
  by (relation "measure (\<lambda>(rects, keep, i, j). length rects - j)") auto

function pruneOuter :: "rect list \<Rightarrow> bool list \<Rightarrow> nat \<Rightarrow> bool list" where
  "pruneOuter rects keep i =
     (if i < length rects then
        (if \<not> keep ! i then pruneOuter rects keep (i + 1)
         else pruneOuter rects (pruneInner rects keep i (i + 1)) (i + 1))
      else keep)"
  by pat_completeness auto
termination
  by (relation "measure (\<lambda>(rects, keep, i). length rects - i)") auto

definition keptRects :: "rect list \<Rightarrow> bool list \<Rightarrow> rect list" where
  "keptRects rects keep = map fst (filter snd (zip rects keep))"

definition pruneFreeRects :: "sheet \<Rightarrow> sheet" where
  "pruneFreeRects sh =
     (let rects = freeRects sh;
          keep = pruneOuter rects (replicate (length rects) True) 0
      in sh\<lparr>freeRects := keptRects rects keep\<rparr>)"

text \<open>
  What one free rectangle \<open>r\<close> contributes to \<^verbatim>\<open>newFree\<close> in \<^verbatim>\<open>placeRect\<close>: itself
  when the consumed area misses it, otherwise its left, right, above and below
  remainders, in the order of the four \<^verbatim>\<open>push\<close> calls.
\<close>

definition remainders :: "num \<Rightarrow> num \<Rightarrow> num \<Rightarrow> num \<Rightarrow> rect \<Rightarrow> rect list" where
  "remainders x y px2 py2 r =
     (if x > rx r then [\<lparr>rx = rx r, ry = ry r, rw = x - rx r, rh = rh r\<rparr>] else []) @
     (if px2 < rx r + rw r then [\<lparr>rx = px2, ry = ry r, rw = rx r + rw r - px2, rh = rh r\<rparr>] else []) @
     (if y > ry r then [\<lparr>rx = rx r, ry = ry r, rw = rw r, rh = y - ry r\<rparr>] else []) @
     (if py2 < ry r + rh r then [\<lparr>rx = rx r, ry = py2, rw = rw r, rh = ry r + rh r - py2\<rparr>] else [])"

definition missesRect :: "num \<Rightarrow> num \<Rightarrow> num \<Rightarrow> num \<Rightarrow> rect \<Rightarrow> bool" where
  "missesRect x y px2 py2 r \<longleftrightarrow>
     x \<ge> rx r + rw r \<or> px2 \<le> rx r \<or> y \<ge> ry r + rh r \<or> py2 \<le> ry r"

definition splitRect :: "num \<Rightarrow> num \<Rightarrow> num \<Rightarrow> num \<Rightarrow> rect \<Rightarrow> rect list" where
  "splitRect x y px2 py2 r =
     (if missesRect x y px2 py2 r then [r] else remainders x y px2 py2 r)"

definition bigEnough :: "rect \<Rightarrow> bool" where
  "bigEnough r \<longleftrightarrow> rw r > 1 / 2 \<and> rh r > 1 / 2"

definition placeRect :: "config \<Rightarrow> sheet \<Rightarrow> num \<Rightarrow> num \<Rightarrow> num \<Rightarrow> num \<Rightarrow> sheet" where
  "placeRect cfg sh x y w h =
     (let pw' = w + kerf cfg;
          ph' = h + kerf cfg;
          px2 = min (x + pw') (sheetW cfg);
          py2 = min (y + ph') (sheetH cfg);
          newFree = concat (map (splitRect x y px2 py2) (freeRects sh))
      in pruneFreeRects (sh\<lparr>freeRects := filter bigEnough newFree\<rparr>))"

subsection \<open>Fit scorer\<close>

definition scoreFit :: "config \<Rightarrow> rect \<Rightarrow> num \<Rightarrow> num \<Rightarrow> heuristic \<Rightarrow> score" where
  "scoreFit cfg r w h heur =
     (let leftoverW = rw r - w;
          leftoverH = rh r - h;
          ps = (case heur of
                  BSSF \<Rightarrow> (min leftoverW leftoverH, max leftoverW leftoverH)
                | BLSF \<Rightarrow> (max leftoverW leftoverH, min leftoverW leftoverH)
                | BAF \<Rightarrow> (leftoverW * leftoverH + leftoverW + leftoverH,
                          min leftoverW leftoverH))
      in \<lparr>primary = fst ps, secondary = snd ps,
          positionScore = ry r * sheetW cfg + rx r\<rparr>)"

definition isBetterScore :: "score \<Rightarrow> score \<Rightarrow> bool" where
  "isBetterScore a b =
     (if primary a \<noteq> primary b then primary a < primary b
      else if secondary a \<noteq> secondary b then secondary a < secondary b
      else positionScore a < positionScore b)"

text \<open>
  The loop state of \<^verbatim>\<open>findBestFit\<close>: \<^verbatim>\<open>bestScore\<close>, \<^verbatim>\<open>bestRect\<close>, \<^verbatim>\<open>bestW\<close> and \<^verbatim>\<open>bestH\<close>
  are assigned together, so the state is \<open>None\<close> while the first two are \<^verbatim>\<open>null\<close>.
\<close>

type_synonym best = "(score \<times> rect \<times> num \<times> num) option"

definition candidate :: "config \<Rightarrow> heuristic \<Rightarrow> rect \<Rightarrow> num \<Rightarrow> num \<Rightarrow> best \<Rightarrow> best" where
  "candidate cfg heur r w h bst =
     (let sc = scoreFit cfg r w h heur
      in if (case bst of None \<Rightarrow> True | Some (bs, _) \<Rightarrow> isBetterScore sc bs)
         then Some (sc, r, w, h) else bst)"

definition fitStep :: "config \<Rightarrow> heuristic \<Rightarrow> num \<Rightarrow> num \<Rightarrow> rect \<Rightarrow> best \<Rightarrow> best" where
  "fitStep cfg heur w h r bst =
     (let b1 = (if w \<le> rw r \<and> h \<le> rh r then candidate cfg heur r w h bst else bst)
      in if h \<le> rw r \<and> w \<le> rh r \<and> w \<noteq> h then candidate cfg heur r h w b1 else b1)"

fun fitLoop :: "config \<Rightarrow> heuristic \<Rightarrow> num \<Rightarrow> num \<Rightarrow> rect list \<Rightarrow> best \<Rightarrow> best" where
  "fitLoop cfg heur w h [] bst = bst"
| "fitLoop cfg heur w h (r # rs) bst = fitLoop cfg heur w h rs (fitStep cfg heur w h r bst)"

definition findBestFit :: "config \<Rightarrow> sheet \<Rightarrow> num \<Rightarrow> num \<Rightarrow> heuristic \<Rightarrow> fit option" where
  "findBestFit cfg sh w h heur =
     (case fitLoop cfg heur w h (freeRects sh) None of
        None \<Rightarrow> None
      | Some (bs, br, bw, bh) \<Rightarrow>
          Some \<lparr>fit_rect = br, fit_w = bw, fit_h = bh, fit_rotated = (bw \<noteq> w), fit_score = bs\<rparr>)"

text \<open>\<^verbatim>\<open>tryPlace\<close> mutates the sheet and returns a flag: \<open>None\<close> is \<^verbatim>\<open>false\<close>, \<open>Some\<close>
  carries the sheet after the mutation.\<close>

definition tryPlace :: "config \<Rightarrow> piece \<Rightarrow> sheet \<Rightarrow> heuristic \<Rightarrow> sheet option" where
  "tryPlace cfg p sh heur =
     (case findBestFit cfg sh (width p) (height p) heur of
        None \<Rightarrow> None
      | Some f \<Rightarrow>
          (let pl = \<lparr>px = rx (fit_rect f), py = ry (fit_rect f), pw = fit_w f, ph = fit_h f,
                     rotated = fit_rotated f, plid = pid p, pllabel = label p,
                     plfurniture = furniture p, plcolor = color p,
                     origW = width p, origH = height p\<rparr>;
               sh1 = sh\<lparr>pieces := pieces sh @ [pl],
                        usedArea := usedArea sh + fit_w f * fit_h f\<rparr>
           in Some (placeRect cfg sh1 (rx (fit_rect f)) (ry (fit_rect f)) (fit_w f) (fit_h f))))"

subsection \<open>Strategy runner\<close>

definition fitsAtAll :: "config \<Rightarrow> piece \<Rightarrow> bool" where
  "fitsAtAll cfg p \<longleftrightarrow>
     (width p \<le> sheetW cfg \<and> height p \<le> sheetH cfg) \<or>
     (height p \<le> sheetW cfg \<and> width p \<le> sheetH cfg)"

definition mkUnplaced :: "piece \<Rightarrow> reason \<Rightarrow> unplaced" where
  "mkUnplaced p r =
     \<lparr>pid = pid p, label = label p, furniture = furniture p, color = color p,
      width = width p, height = height p, reason = r\<rparr>"

text \<open>
  The scan of the open sheets in \<^verbatim>\<open>runStrategy\<close>: \<^verbatim>\<open>bestSheetIdx\<close> and \<^verbatim>\<open>bestScore\<close>
  are assigned together, \<open>None\<close> is the initial \<^verbatim>\<open>-1\<close> / \<^verbatim>\<open>null\<close>.
\<close>

fun bestSheet ::
  "config \<Rightarrow> heuristic \<Rightarrow> piece \<Rightarrow> sheet list \<Rightarrow> nat \<Rightarrow> (nat \<times> score) option
     \<Rightarrow> (nat \<times> score) option" where
  "bestSheet cfg heur p [] i bst = bst"
| "bestSheet cfg heur p (s # ss) i bst =
     bestSheet cfg heur p ss (i + 1)
       (case findBestFit cfg s (width p) (height p) heur of
          None \<Rightarrow> bst
        | Some f \<Rightarrow>
            if (case bst of None \<Rightarrow> True | Some (_, bs) \<Rightarrow> isBetterScore (fit_score f) bs)
            then Some (i, fit_score f) else bst)"

text \<open>One iteration of the loop over the sorted pieces. The value of \<^verbatim>\<open>tryPlace\<close> on an
  open sheet is ignored by the source, so a \<^verbatim>\<open>false\<close> there leaves the state as it is.\<close>

definition packStep :: "config \<Rightarrow> heuristic \<Rightarrow> piece \<Rightarrow> packing \<Rightarrow> packing" where
  "packStep cfg heur p st =
     (if \<not> fitsAtAll cfg p
      then st\<lparr>unplacedList := unplacedList st @ [mkUnplaced p TooLargeForSheet]\<rparr>
      else
        (case bestSheet cfg heur p (sheets st) 0 None of
           Some (i, _) \<Rightarrow>
             (case tryPlace cfg p (sheets st ! i) heur of
                Some s' \<Rightarrow> st\<lparr>sheets := (sheets st)[i := s']\<rparr>
              | None \<Rightarrow> st)
         | None \<Rightarrow>
             if int (length (sheets st)) \<ge> maxSheets cfg
             then st\<lparr>unplacedList := unplacedList st @ [mkUnplaced p NoSheetsRemaining]\<rparr>
             else
               (case tryPlace cfg p (newSheet cfg) heur of
                  Some s \<Rightarrow> st\<lparr>sheets := sheets st @ [s]\<rparr>
                | None \<Rightarrow> st\<lparr>unplacedList := unplacedList st @ [mkUnplaced p CouldNotPlace]\<rparr>)))"

fun runLoop :: "config \<Rightarrow> heuristic \<Rightarrow> piece list \<Rightarrow> packing \<Rightarrow> packing" where
  "runLoop cfg heur [] st = st"
| "runLoop cfg heur (p # ps) st = runLoop cfg heur ps (packStep cfg heur p st)"

definition runStrategy :: "config \<Rightarrow> piece list \<Rightarrow> heuristic \<Rightarrow> packing" where
  "runStrategy cfg sortedPieces heur = runLoop cfg heur sortedPieces \<lparr>sheets = [], unplacedList = []\<rparr>"

subsection \<open>Strategy selector\<close>

record resultScore =
  sheetCount :: nat
  waste :: num
  unplacedCount :: nat

definition resultScore :: "config \<Rightarrow> packing \<Rightarrow> resultScore" where
  "resultScore cfg r =
     (let totalArea = sheetW cfg * sheetH cfg;
          totalUsed = foldl (\<lambda>s sh. s + usedArea sh) 0 (sheets r);
          totalSheetArea = of_nat (length (sheets r)) * totalArea;
          wasteRatio = (if totalSheetArea > 0 then 1 - totalUsed / totalSheetArea else 0)
      in \<lparr>sheetCount = length (sheets r), waste = wasteRatio,
          unplacedCount = length (unplacedList r)\<rparr>)"

definition isBetterResult :: "config \<Rightarrow> packing \<Rightarrow> packing \<Rightarrow> bool" where
  "isBetterResult cfg a b =
     (let sa = resultScore cfg a; sb = resultScore cfg b
      in if unplacedCount sa \<noteq> unplacedCount sb then unplacedCount sa < unplacedCount sb
         else if sheetCount sa \<noteq> sheetCount sb then sheetCount sa < sheetCount sb
         else waste sa < waste sb)"

text \<open>
  \<^verbatim>\<open>Array.prototype.sort\<close> with a comparison function is stable; with the consistent
  comparators used here its result is the one of a stable insertion sort, where an
  element stays in front of a later one unless the comparator is positive.
\<close>

fun insertBy :: "('a \<Rightarrow> 'a \<Rightarrow> num) \<Rightarrow> 'a \<Rightarrow> 'a list \<Rightarrow> 'a list" where
  "insertBy cmp a [] = [a]"
| "insertBy cmp a (b # bs) = (if cmp a b \<le> 0 then a # b # bs else b # insertBy cmp a bs)"

fun sortBy :: "('a \<Rightarrow> 'a \<Rightarrow> num) \<Rightarrow> 'a list \<Rightarrow> 'a list" where
  "sortBy cmp [] = []"
| "sortBy cmp (a # as) = insertBy cmp a (sortBy cmp as)"

definition byArea :: "piece \<Rightarrow> piece \<Rightarrow> num" where
  "byArea a b =
     (let d = width b * height b - width a * height a
      in if d \<noteq> 0 then d else max (width b) (height b) - max (width a) (height a))"

definition byPerimeter :: "piece \<Rightarrow> piece \<Rightarrow> num" where
  "byPerimeter a b =
     (let d = (width b + height b) - (width a + height a)
      in if d \<noteq> 0 then d else width b * height b - width a * height a)"

definition byLongestSide :: "piece \<Rightarrow> piece \<Rightarrow> num" where
  "byLongestSide a b =
     (let d = max (width b) (height b) - max (width a) (height a)
      in if d \<noteq> 0 then d else width b * height b - width a * height a)"

definition byLongestThenShortest :: "piece \<Rightarrow> piece \<Rightarrow> num" where
  "byLongestThenShortest a b =
     (let d = max (width b) (height b) - max (width a) (height a)
      in if d \<noteq> 0 then d else min (width b) (height b) - min (width a) (height a))"

definition sortStrategies :: "(piece \<Rightarrow> piece \<Rightarrow> num) list" where
  "sortStrategies = [byArea, byPerimeter, byLongestSide, byLongestThenShortest]"

definition heuristics :: "heuristic list" where
  "heuristics = [BSSF, BLSF, BAF]"

text \<open>The results of the nested loops over sort orders and heuristics, in the order
  in which the source produces them.\<close>

definition strategyGrid :: "config \<Rightarrow> piece list \<Rightarrow> packing list" where
  "strategyGrid cfg ps =
     concat (map (\<lambda>sortFn. map (runStrategy cfg (sortBy sortFn ps)) heuristics) sortStrategies)"

fun selectBest :: "config \<Rightarrow> packing list \<Rightarrow> packing option \<Rightarrow> packing option" where
  "selectBest cfg [] bst = bst"
| "selectBest cfg (r # rs) bst =
     selectBest cfg rs
       (if (case bst of None \<Rightarrow> True | Some b \<Rightarrow> isBetterResult cfg r b) then Some r else bst)"

subsection \<open>Consolidator\<close>

definition fakePiece :: "placed \<Rightarrow> piece" where
  "fakePiece p =
     \<lparr>pid = plid p, label = pllabel p, furniture = plfurniture p, color = plcolor p,
      width = origW p, height = origH p\<rparr>"

definition sortSheets :: "sheet list \<Rightarrow> sheet list" where
  "sortSheets = sortBy (\<lambda>a b. usedArea b - usedArea a)"

text \<open>The loop over the earlier sheets for one piece of the last sheet: \<open>None\<close> when no
  sheet takes it, otherwise the earlier sheets after the placement.\<close>

fun tryEarlier :: "config \<Rightarrow> piece \<Rightarrow> sheet list \<Rightarrow> sheet list option" where
  "tryEarlier cfg fp [] = None"
| "tryEarlier cfg fp (s # ss) =
     (case findBestFit cfg s (width fp) (height fp) BSSF of
        Some f \<Rightarrow> Some ((case tryPlace cfg fp s BSSF of Some s' \<Rightarrow> s' | None \<Rightarrow> s) # ss)
      | None \<Rightarrow> map_option ((#) s) (tryEarlier cfg fp ss))"

text \<open>The loop over \<^verbatim>\<open>piecesToMove\<close>; the flags say which indices are in
  \<^verbatim>\<open>movedIndices\<close>.\<close>

fun moveLoop :: "config \<Rightarrow> placed list \<Rightarrow> sheet list \<Rightarrow> sheet list \<times> bool list" where
  "moveLoop cfg [] earlier = (earlier, [])"
| "moveLoop cfg (p # ps) earlier =
     (case tryEarlier cfg (fakePiece p) earlier of
        Some earlier' \<Rightarrow> (case moveLoop cfg ps earlier' of (e, m) \<Rightarrow> (e, True # m))
      | None \<Rightarrow> (case moveLoop cfg ps earlier of (e, m) \<Rightarrow> (e, False # m)))"

text \<open>The rebuild loop; the source ignores what \<^verbatim>\<open>tryPlace\<close> returns.\<close>

fun rebuild :: "config \<Rightarrow> placed list \<Rightarrow> sheet \<Rightarrow> sheet" where
  "rebuild cfg [] sh = sh"
| "rebuild cfg (p # ps) sh =
     rebuild cfg ps (case tryPlace cfg (fakePiece p) sh BSSF of Some sh' \<Rightarrow> sh' | None \<Rightarrow> sh)"

definition remaining :: "placed list \<Rightarrow> bool list \<Rightarrow> placed list" where
  "remaining ps moved = map fst (filter (\<lambda>(p, m). \<not> m) (zip ps moved))"

text \<open>One turn of the \<^verbatim>\<open>while\<close> loop on a list of at least two sheets: the sheets
  afterwards and the flag \<^verbatim>\<open>improved\<close>.\<close>

definition consolidatePass :: "config \<Rightarrow> sheet list \<Rightarrow> sheet list \<times> bool" where
  "consolidatePass cfg shs =
     (let sortedSheets = sortSheets shs;
          lastSheet = last sortedSheets;
          piecesToMove = pieces lastSheet
      in case moveLoop cfg piecesToMove (butlast sortedSheets) of
           (earlier, moved) \<Rightarrow>
             (let nMoved = length (filter id moved)
              in if nMoved > 0 then
                   (if nMoved = length piecesToMove then (earlier, True)
                    else (earlier @ [rebuild cfg (remaining piecesToMove moved) (newSheet cfg)],
                          True))
                 else (earlier @ [lastSheet], False)))"

partial_function (option) consolidateSheets :: "config \<Rightarrow> packing \<Rightarrow> packing option" where
  "consolidateSheets cfg res =
     (if length (sheets res) \<le> 1 then Some res
      else (case consolidatePass cfg (sheets res) of
              (shs, improved) \<Rightarrow>
                if improved then consolidateSheets cfg (res\<lparr>sheets := shs\<rparr>)
                else Some (res\<lparr>sheets := shs\<rparr>)))"

declare consolidateSheets.simps [code]

subsection \<open>Output and suggestions\<close>

text \<open>
  A quotient of the source is not finite when the sheet area is zero; the non-finite
  doubles are kept apart so that no such quotient is read as a number. The sign of a
  zero divisor is not modelled.
\<close>

datatype jsnum = Fin num | NaN | PosInf | NegInf

definition jsDiv :: "num \<Rightarrow> num \<Rightarrow> jsnum" where
  "jsDiv a b =
     (if b \<noteq> 0 then Fin (a / b) else if a = 0 then NaN else if a > 0 then PosInf else NegInf)"

definition jsGt :: "jsnum \<Rightarrow> num \<Rightarrow> bool" where
  "jsGt a b = (case a of Fin v \<Rightarrow> v > b | PosInf \<Rightarrow> True | _ \<Rightarrow> False)"

definition jsLt :: "jsnum \<Rightarrow> num \<Rightarrow> bool" where
  "jsLt a b = (case a of Fin v \<Rightarrow> v < b | NegInf \<Rightarrow> True | _ \<Rightarrow> False)"

text \<open>\<^verbatim>\<open>toFixed(d)\<close> read back as a number: the nearest multiple of \<open>10\<^sup>-\<^sup>d\<close>, a tie going
  away from zero.\<close>

definition toFixed :: "nat \<Rightarrow> num \<Rightarrow> num" where
  "toFixed d v =
     (if v < 0 then - (of_int \<lfloor>(- v) * 10 ^ d + 1 / 2\<rfloor> / 10 ^ d)
      else of_int \<lfloor>v * 10 ^ d + 1 / 2\<rfloor> / 10 ^ d)"

definition wastePercentOf :: "num \<Rightarrow> num \<Rightarrow> jsnum" where
  "wastePercentOf used totalArea =
     (case jsDiv used totalArea of
        Fin q \<Rightarrow> Fin (toFixed 1 ((1 - q) * 100))
      | NaN \<Rightarrow> NaN | PosInf \<Rightarrow> NegInf | NegInf \<Rightarrow> PosInf)"

definition percentOf :: "num \<Rightarrow> num \<Rightarrow> jsnum" where
  "percentOf a totalArea =
     (case jsDiv a totalArea of Fin q \<Rightarrow> Fin (toFixed 0 (q * 100)) | other \<Rightarrow> other)"

record largestFree =
  lf_w :: num
  lf_h :: num
  lf_area :: num
  lf_pos :: "(num \<times> num) option"

fun largestFreeLoop :: "rect list \<Rightarrow> largestFree \<Rightarrow> largestFree" where
  "largestFreeLoop [] lf = lf"
| "largestFreeLoop (r # rs) lf =
     largestFreeLoop rs
       (let a = rw r * rh r
        in if a > lf_area lf
           then \<lparr>lf_w = rw r, lf_h = rh r, lf_area = a, lf_pos = Some (rx r, ry r)\<rparr>
           else lf)"

definition computeActualFreeArea :: "rect list \<Rightarrow> num \<Rightarrow> num \<Rightarrow> num" where
  "computeActualFreeArea frs w h = min (foldl (\<lambda>s r. s + rw r * rh r) 0 frs) (w * h)"

record outSheet =
  o_pieces :: "placed list"
  wastePercent :: jsnum
  o_usedArea :: num
  o_freeRects :: "rect list"
  largest :: largestFree
  totalFreeArea :: num

definition outSheetOf :: "config \<Rightarrow> sheet \<Rightarrow> outSheet" where
  "outSheetOf cfg s =
     \<lparr>o_pieces = pieces s,
      wastePercent = wastePercentOf (usedArea s) (sheetW cfg * sheetH cfg),
      o_usedArea = usedArea s,
      o_freeRects = freeRects s,
      largest = largestFreeLoop (freeRects s) \<lparr>lf_w = 0, lf_h = 0, lf_area = 0, lf_pos = None\<rparr>,
      totalFreeArea = computeActualFreeArea (freeRects s) (sheetW cfg) (sheetH cfg)\<rparr>"

datatype suggestionType = FillGaps | Consolidate | FutureUse | Efficiency

text \<open>The message of a suggestion is a string built from a few numbers; the model keeps
  the numbers.\<close>

datatype message =
    FillGapsMsg nat jsnum "(int \<times> int) list"
  | ConsolidateMsg nat jsnum
  | FutureUseMsg nat int int
  | EfficiencyMsg jsnum nat

record suggestion =
  s_type :: suggestionType
  s_sheet :: nat
  s_message :: message

fun fitExamplesLoop :: "rect list \<Rightarrow> (int \<times> int) list \<Rightarrow> (int \<times> int) list" where
  "fitExamplesLoop [] acc = acc"
| "fitExamplesLoop (r # rs) acc =
     fitExamplesLoop rs
       (if rw r \<ge> 200 \<and> rh r \<ge> 200
        then (let k = (\<lfloor>rw r\<rfloor>, \<lfloor>rh r\<rfloor>) in if k \<in> set acc then acc else acc @ [k])
        else acc)"

definition sheetSuggestions :: "num \<Rightarrow> nat \<Rightarrow> nat \<Rightarrow> outSheet \<Rightarrow> suggestion list" where
  "sheetSuggestions totalArea n idx sh =
     (let wasteNum = wastePercent sh
      in if lf_area (largest sh) > 0 then
           (let freePercent = percentOf (totalFreeArea sh) totalArea;
                fitExamples = fitExamplesLoop (o_freeRects sh) []
            in (if jsGt wasteNum 15 \<and> length fitExamples > 0
                then [\<lparr>s_type = FillGaps, s_sheet = idx + 1,
                       s_message = FillGapsMsg (idx + 1) freePercent (take 3 fitExamples)\<rparr>]
                else []) @
               (if idx + 1 < n \<and> jsGt wasteNum 30
                then [\<lparr>s_type = Consolidate, s_sheet = idx + 1,
                       s_message = ConsolidateMsg (idx + 1)
                         (case wasteNum of Fin v \<Rightarrow> Fin (toFixed 0 (100 - v))
                          | NaN \<Rightarrow> NaN | PosInf \<Rightarrow> NegInf | NegInf \<Rightarrow> PosInf)\<rparr>]
                else []))
         else [])"

definition generateSuggestions ::
  "outSheet list \<Rightarrow> num \<Rightarrow> num \<Rightarrow> unplaced list \<Rightarrow> suggestion list" where
  "generateSuggestions shs w h unpl =
     (let totalArea = w * h;
          n = length shs
      in concat (map (\<lambda>(idx, sh). sheetSuggestions totalArea n idx sh) (zip [0 ..< n] shs)) @
         (if n > 0 \<and> jsGt (wastePercent (last shs)) 20
          then [\<lparr>s_type = FutureUse, s_sheet = n,
                 s_message = FutureUseMsg n \<lfloor>lf_w (largest (last shs))\<rfloor>
                                            \<lfloor>lf_h (largest (last shs))\<rfloor>\<rparr>]
          else []) @
         (if n > 1 then
            (let totalUsed = foldl (\<lambda>s sh. s + o_usedArea sh) 0 shs;
                 minSheetsNeeded = (case jsDiv totalUsed totalArea of
                                      Fin q \<Rightarrow> Fin (of_int \<lceil>q\<rceil>) | other \<Rightarrow> other)
             in if jsLt minSheetsNeeded (of_nat n)
                then [\<lparr>s_type = Efficiency, s_sheet = 0,
                       s_message = EfficiencyMsg minSheetsNeeded n\<rparr>]
                else [])
          else []))"

subsection \<open>The entry point\<close>

record result =
  r_sheets :: "outSheet list"
  r_unplaced :: "unplaced list"
  suggestions :: "suggestion list"

text \<open>The source has no \<^verbatim>\<open>throw\<close>; the one place where it could fail is the read of
  \<^verbatim>\<open>bestResult.sheets\<close> on a \<^verbatim>\<open>null\<close>.\<close>

datatype error = TypeError

definition buildOutput :: "config \<Rightarrow> packing \<Rightarrow> result" where
  "buildOutput cfg b =
     (let resultSheets = map (outSheetOf cfg) (sheets b)
      in \<lparr>r_sheets = resultSheets, r_unplaced = unplacedList b,
          suggestions = generateSuggestions resultSheets (sheetW cfg) (sheetH cfg) (unplacedList b)\<rparr>)"

text \<open>
  \<open>None\<close> means that the consolidation loop does not return; \<open>Some (Inl e)\<close> is an
  exception and \<open>Some (Inr res)\<close> the returned object.
\<close>

definition packPieces :: "piece list \<Rightarrow> config \<Rightarrow> (error + result) option" where
  "packPieces ps cfg =
     (if length ps = 0 then Some (Inr \<lparr>r_sheets = [], r_unplaced = [], suggestions = []\<rparr>)
      else
        (case selectBest cfg (strategyGrid cfg ps) None of
           None \<Rightarrow> Some (Inl TypeError)
         | Some bestResult \<Rightarrow>
             (case (if length (sheets bestResult) > 1 then consolidateSheets cfg bestResult
                    else Some bestResult) of
                None \<Rightarrow> None
              | Some b \<Rightarrow> Some (Inr (buildOutput cfg b)))))"

subsection \<open>The fit search as the specification words it\<close>

text \<open>
  The definitions of this subsection follow the specification's sentences on the fit
  scorer, not the source: when a piece fits, the score triple of each heuristic, the
  lexicographic comparison, and the candidates of a list of free rectangles (the
  unrotated orientation, and the rotated one when the two sides differ).
\<close>

definition specFits :: "rect \<Rightarrow> num \<Rightarrow> num \<Rightarrow> bool" where
  "specFits r placedW placedH \<longleftrightarrow> placedW \<le> rw r \<and> placedH \<le> rh r"

definition specScore :: "config \<Rightarrow> heuristic \<Rightarrow> rect \<Rightarrow> num \<Rightarrow> num \<Rightarrow> num \<times> num \<times> num" where
  "specScore cfg heur r placedW placedH =
     (let leftoverW = rw r - placedW; leftoverH = rh r - placedH;
          positionScore = ry r * sheetW cfg + rx r
      in case heur of
           BSSF \<Rightarrow> (min leftoverW leftoverH, max leftoverW leftoverH, positionScore)
         | BLSF \<Rightarrow> (max leftoverW leftoverH, min leftoverW leftoverH, positionScore)
         | BAF \<Rightarrow> (leftoverW * leftoverH + leftoverW + leftoverH, min leftoverW leftoverH,
                    positionScore))"

definition specLower :: "num \<times> num \<times> num \<Rightarrow> num \<times> num \<times> num \<Rightarrow> bool" where
  "specLower a b \<longleftrightarrow>
     fst a < fst b \<or>
     (fst a = fst b \<and> (fst (snd a) < fst (snd b) \<or>
        (fst (snd a) = fst (snd b) \<and> snd (snd a) < snd (snd b))))"

definition specCandidates ::
  "config \<Rightarrow> heuristic \<Rightarrow> num \<Rightarrow> num \<Rightarrow> rect list \<Rightarrow> ((num \<times> num \<times> num) \<times> rect \<times> num \<times> num) list" where
  "specCandidates cfg heur pieceW pieceH rs =
     concat (map (\<lambda>r.
       (if specFits r pieceW pieceH then [(specScore cfg heur r pieceW pieceH, r, pieceW, pieceH)] else []) @
       (if pieceW \<noteq> pieceH \<and> specFits r pieceH pieceW
        then [(specScore cfg heur r pieceH pieceW, r, pieceH, pieceW)] else [])) rs)"

text \<open>A score and a fit of the source, read as the specification's triple and candidate.\<close>

definition scoreTriple :: "score \<Rightarrow> num \<times> num \<times> num" where
  "scoreTriple s = (primary s, secondary s, positionScore s)"

definition asCandidate :: "fit \<Rightarrow> (num \<times> num \<times> num) \<times> rect \<times> num \<times> num" where
  "asCandidate f = (scoreTriple (fit_score f), fit_rect f, fit_w f, fit_h f)"

text \<open>The loop state read as a candidate.\<close>

definition bestCand :: "best \<Rightarrow> ((num \<times> num \<times> num) \<times> rect \<times> num \<times> num) option" where
  "bestCand b = map_option (\<lambda>(s, r, w, h). (scoreTriple s, r, w, h)) b"

definition pick ::
  "((num \<times> num \<times> num) \<times> rect \<times> num \<times> num) option \<Rightarrow> (num \<times> num \<times> num) \<times> rect \<times> num \<times> num
     \<Rightarrow> ((num \<times> num \<times> num) \<times> rect \<times> num \<times> num) option" where
  "pick b c = (case b of None \<Rightarrow> Some c | Some b' \<Rightarrow> if specLower (fst c) (fst b') then Some c else b)"

subsection \<open>Notions for the free-space tracker\<close>

declare pruneInner.simps [simp del]
declare pruneOuter.simps [simp del]




subsection \<open>The order on results as the specification words it\<close>



subsection \<open>Placement invariants as the specification words them\<close>

text \<open>
  Following the specification: a placed piece lies within the sheet; the footprint of
  a placed piece is its rectangle widened by the kerf on the trailing edges and
  clipped to the sheet, a half-open box, and two footprints overlap when the boxes
  share a point; a piece occurs in a result once for each placement and each unplaced
  entry that carries its identity.
\<close>

definition withinSheet :: "config \<Rightarrow> placed \<Rightarrow> bool" where
  "withinSheet cfg p \<longleftrightarrow>
     0 \<le> px p \<and> 0 \<le> py p \<and> px p + pw p \<le> sheetW cfg \<and> py p + ph p \<le> sheetH cfg"

definition footprintX2 :: "config \<Rightarrow> placed \<Rightarrow> num" where
  "footprintX2 cfg p = min (px p + pw p + kerf cfg) (sheetW cfg)"

definition footprintY2 :: "config \<Rightarrow> placed \<Rightarrow> num" where
  "footprintY2 cfg p = min (py p + ph p + kerf cfg) (sheetH cfg)"

definition footprintsOverlap :: "config \<Rightarrow> placed \<Rightarrow> placed \<Rightarrow> bool" where
  "footprintsOverlap cfg a b \<longleftrightarrow>
     max (px a) (px b) < min (footprintX2 cfg a) (footprintX2 cfg b) \<and>
     max (py a) (py b) < min (footprintY2 cfg a) (footprintY2 cfg b)"

definition occurrences :: "string \<Rightarrow> result \<Rightarrow> nat" where
  "occurrences i res =
     length (filter (\<lambda>p. plid p = i) (concat (map o_pieces (r_sheets res)))) +
     length (filter (\<lambda>u. pid u = i) (r_unplaced res))"

subsection \<open>Notions for the consolidation loop\<close>

text \<open>
  The bookkeeping that the consolidation relies on: the area of a placed piece, read
  off the dimensions it came with; a sheet whose \<open>usedArea\<close> is the sum of the areas of
  its pieces, none of them negative; and the pair that decreases with every pass that
  moves a piece, the number of sheets and the number of pieces on the sheet that the
  next pass takes as the last one.
\<close>

definition areaOf :: "placed \<Rightarrow> num" where
  "areaOf p = origW p * origH p"

definition sheetInv :: "sheet \<Rightarrow> bool" where
  "sheetInv s \<longleftrightarrow>
     usedArea s = sum_list (map areaOf (pieces s)) \<and> (\<forall>p \<in> set (pieces s). 0 \<le> areaOf p)"

definition passMeasure :: "sheet list \<Rightarrow> nat \<times> nat" where
  "passMeasure shs = (length shs, length (pieces (last (sortSheets shs))))"

subsection \<open>Comparators\<close>


subsection \<open>Notions for the geometry of a sheet\<close>

text \<open>
  A rectangle within the sheet; a rectangle clear of the area that a placed piece
  consumed, which is the piece's footprint; the rectangle that a placed piece itself
  covers; and the state of a sound sheet: every free rectangle is within the sheet and
  clear of every piece, every piece is within the sheet, and each piece is clear of the
  footprints of the pieces placed before it.
\<close>

definition rectInSheet :: "config \<Rightarrow> rect \<Rightarrow> bool" where
  "rectInSheet cfg r \<longleftrightarrow>
     0 \<le> rx r \<and> 0 \<le> ry r \<and> rx r + rw r \<le> sheetW cfg \<and> ry r + rh r \<le> sheetH cfg"

definition clearOf :: "config \<Rightarrow> placed \<Rightarrow> rect \<Rightarrow> bool" where
  "clearOf cfg p r \<longleftrightarrow> missesRect (px p) (py p) (footprintX2 cfg p) (footprintY2 cfg p) r"

definition rawRect :: "placed \<Rightarrow> rect" where
  "rawRect p = \<lparr>rx = px p, ry = py p, rw = pw p, rh = ph p\<rparr>"

definition geomInv :: "config \<Rightarrow> sheet \<Rightarrow> bool" where
  "geomInv cfg s \<longleftrightarrow>
     (\<forall>r \<in> set (freeRects s). rectInSheet cfg r \<and> (\<forall>p \<in> set (pieces s). clearOf cfg p r)) \<and>
     (\<forall>p \<in> set (pieces s). withinSheet cfg p) \<and>
     sorted_wrt (\<lambda>a b. clearOf cfg a (rawRect b)) (pieces s)"

subsection \<open>Notions for the conservation of pieces\<close>

text \<open>
  The pieces placed on a list of sheets, read back from the placements, and the pieces
  that a packing accounts for: the placed ones and the unplaced entries without their
  reason. The pieces of a list whose flag is set are the moved ones.
\<close>

definition placedOn :: "sheet list \<Rightarrow> piece multiset" where
  "placedOn shs = mset (map fakePiece (concat (map pieces shs)))"

definition accounted :: "packing \<Rightarrow> piece multiset" where
  "accounted r = placedOn (sheets r) + mset (map piece.truncate (unplacedList r))"

definition movedPieces :: "placed list \<Rightarrow> bool list \<Rightarrow> placed list" where
  "movedPieces ps moved = map fst (filter snd (zip ps moved))"

section \<open>The empty piece list\<close>

text \<open>
  Claim C9. For every sheet width and height, kerf and sheet cap, the engine called
  with an empty piece list returns (it neither throws nor diverges) the result with
  no sheet, no unplaced entry and no suggestion.
\<close>

theorem packPieces_empty:
  "packPieces [] cfg = Some (Inr \<lparr>r_sheets = [], r_unplaced = [], suggestions = []\<rparr>)"
  by (simp add: packPieces_def)

section \<open>The fit search returns the best candidate\<close>

lemma scoreFit_spec: "scoreTriple (scoreFit cfg r w h heur) = specScore cfg heur r w h"
  by (cases heur) (simp_all add: scoreTriple_def scoreFit_def specScore_def Let_def)

lemma isBetterScore_spec: "isBetterScore a b \<longleftrightarrow> specLower (scoreTriple a) (scoreTriple b)"
  by (auto simp: isBetterScore_def specLower_def scoreTriple_def)

lemma specLower_trans: "specLower a b \<Longrightarrow> specLower b c \<Longrightarrow> specLower a c"
  by (auto simp: specLower_def)

lemma specLower_irrefl: "\<not> specLower a a"
  by (simp add: specLower_def)

lemma specLower_neg_trans: "\<not> specLower c b \<Longrightarrow> specLower a b \<Longrightarrow> \<not> specLower c a"
  by (auto simp: specLower_def)

lemma candidate_pick:
  "bestCand (candidate cfg heur r w h bst) = pick (bestCand bst) (specScore cfg heur r w h, r, w, h)"
  by (cases bst) (auto simp: candidate_def bestCand_def pick_def Let_def isBetterScore_spec scoreFit_spec)

lemma fitStep_pick:
  "bestCand (fitStep cfg heur w h r bst) = foldl pick (bestCand bst) (specCandidates cfg heur w h [r])"
  by (auto simp: fitStep_def specCandidates_def specFits_def Let_def candidate_pick)

lemma specCandidates_Cons:
  "specCandidates cfg heur w h (r # rs) = specCandidates cfg heur w h [r] @ specCandidates cfg heur w h rs"
  by (simp add: specCandidates_def)

lemma fitLoop_pick:
  "bestCand (fitLoop cfg heur w h rs bst) = foldl pick (bestCand bst) (specCandidates cfg heur w h rs)"
proof (induction rs arbitrary: bst)
  case Nil
  then show ?case by (simp add: specCandidates_def)
next
  case (Cons r rs)
  show ?case
    by (simp add: Cons.IH fitStep_pick specCandidates_Cons[of _ _ _ _ r rs])
qed

lemma foldl_pick_None: "foldl pick b cs = None \<longleftrightarrow> b = None \<and> cs = []"
  by (induction cs arbitrary: b) (auto simp: pick_def split: option.splits)

lemma foldl_pick_Some:
  "foldl pick b cs = Some m \<Longrightarrow>
     (Some m = b \<or> m \<in> set cs) \<and>
     (\<forall>c \<in> set cs. \<not> specLower (fst c) (fst m)) \<and>
     (\<forall>b'. b = Some b' \<longrightarrow> \<not> specLower (fst b') (fst m))"
proof (induction cs arbitrary: b)
  case Nil
  then show ?case by (auto simp: specLower_irrefl)
next
  case (Cons c cs)
  from Cons.prems have f: "foldl pick (pick b c) cs = Some m" by simp
  note ih = Cons.IH[OF f]
  show ?case
  proof (cases b)
    case None
    then have p: "pick b c = Some c" by (simp add: pick_def)
    from ih p have nc: "\<not> specLower (fst c) (fst m)" by blast
    from ih p have "m = c \<or> m \<in> set cs" by auto
    moreover from ih have "\<forall>c \<in> set cs. \<not> specLower (fst c) (fst m)" by simp
    ultimately show ?thesis using nc None by auto
  next
    case (Some b')
    show ?thesis
    proof (cases "specLower (fst c) (fst b')")
      case True
      then have p: "pick b c = Some c" using Some by (simp add: pick_def)
      from ih p have nc: "\<not> specLower (fst c) (fst m)" by blast
      have nb: "\<not> specLower (fst b') (fst m)"
        using True nc by (auto simp: specLower_def)
      from ih p have "m = c \<or> m \<in> set cs" by auto
      moreover from ih have "\<forall>c \<in> set cs. \<not> specLower (fst c) (fst m)" by simp
      ultimately show ?thesis using nc nb Some by auto
    next
      case False
      then have p: "pick b c = b" using Some by (simp add: pick_def)
      from ih p Some have nb: "\<not> specLower (fst b') (fst m)" by blast
      have "\<not> specLower (fst c) (fst m)"
        using False nb by (auto simp: specLower_def)
      from ih p have "Some m = b \<or> m \<in> set cs" by auto
      moreover from ih have "\<forall>c \<in> set cs. \<not> specLower (fst c) (fst m)" by simp
      ultimately show ?thesis using \<open>\<not> specLower (fst c) (fst m)\<close> nb Some by auto
    qed
  qed
qed

lemma findBestFit_bestCand:
  "map_option asCandidate (findBestFit cfg sh w h heur) = bestCand (fitLoop cfg heur w h (freeRects sh) None)"
  by (auto simp: findBestFit_def bestCand_def asCandidate_def split: option.splits)

lemma findBestFit_in_candidates:
  assumes "findBestFit cfg sh w h heur = Some f"
  shows "asCandidate f \<in> set (specCandidates cfg heur w h (freeRects sh))"
proof -
  have "map_option asCandidate (findBestFit cfg sh w h heur)
          = foldl pick None (specCandidates cfg heur w h (freeRects sh))"
    using fitLoop_pick[of cfg heur w h "freeRects sh" None]
    by (simp add: findBestFit_bestCand bestCand_def)
  with assms have "foldl pick None (specCandidates cfg heur w h (freeRects sh)) = Some (asCandidate f)"
    by simp
  from foldl_pick_Some[OF this] show ?thesis by auto
qed

lemma findBestFit_dims:
  assumes "findBestFit cfg sh w h heur = Some f"
  shows "(fit_w f = w \<and> fit_h f = h) \<or> (fit_w f = h \<and> fit_h f = w)"
  using findBestFit_in_candidates[OF assms]
  by (auto simp: specCandidates_def asCandidate_def split: if_splits)

lemma findBestFit_fits:
  assumes "findBestFit cfg sh w h heur = Some f"
  shows "fit_rect f \<in> set (freeRects sh) \<and> fit_w f \<le> rw (fit_rect f) \<and> fit_h f \<le> rh (fit_rect f)"
  using findBestFit_in_candidates[OF assms]
  by (auto simp: specCandidates_def asCandidate_def specFits_def split: if_splits)

text \<open>
  Claim C7. A piece fits a free rectangle in an orientation exactly when the placed
  width and height are at most the rectangle's; the unrotated orientation is always
  a candidate and the rotated one exactly when the two sides differ; each candidate
  carries the triple (primary, secondary, positionScore) of the heuristic. The search
  returns nothing exactly when there is no candidate, and otherwise a candidate of
  the free rectangles that no other candidate beats in the lexicographic order.
\<close>

theorem findBestFit_best_candidate:
  "(findBestFit cfg sh pieceW pieceH heur = None \<longleftrightarrow>
      specCandidates cfg heur pieceW pieceH (freeRects sh) = []) \<and>
   (\<forall>f. findBestFit cfg sh pieceW pieceH heur = Some f \<longrightarrow>
      asCandidate f \<in> set (specCandidates cfg heur pieceW pieceH (freeRects sh)) \<and>
      (\<forall>c \<in> set (specCandidates cfg heur pieceW pieceH (freeRects sh)).
         \<not> specLower (fst c) (fst (asCandidate f))))"
proof -
  let ?cs = "specCandidates cfg heur pieceW pieceH (freeRects sh)"
  have eq: "map_option asCandidate (findBestFit cfg sh pieceW pieceH heur) = foldl pick None ?cs"
    using fitLoop_pick[of cfg heur pieceW pieceH "freeRects sh" None]
    by (simp add: findBestFit_bestCand bestCand_def)
  have a: "findBestFit cfg sh pieceW pieceH heur = None \<longleftrightarrow> ?cs = []"
    using eq foldl_pick_None[of None ?cs] by (metis map_option_is_None)
  have b: "asCandidate f \<in> set ?cs \<and> (\<forall>c \<in> set ?cs. \<not> specLower (fst c) (fst (asCandidate f)))"
    if "findBestFit cfg sh pieceW pieceH heur = Some f" for f
  proof -
    from that eq have "foldl pick None ?cs = Some (asCandidate f)" by simp
    from foldl_pick_Some[OF this] show ?thesis by auto
  qed
  from a b show ?thesis by blast
qed

theorem findBestFit_best_candidate_witness:
  "findBestFit \<lparr>sheetW = 10, sheetH = 10, kerf = 0, maxSheets = 1\<rparr>
     \<lparr>freeRects = [\<lparr>rx = 0, ry = 0, rw = 10, rh = 10\<rparr>], pieces = [], usedArea = 0\<rparr> 3 4 BSSF
   = Some \<lparr>fit_rect = \<lparr>rx = 0, ry = 0, rw = 10, rh = 10\<rparr>, fit_w = 3, fit_h = 4,
            fit_rotated = False,
            fit_score = \<lparr>primary = 6, secondary = 7, positionScore = 0\<rparr>\<rparr> \<and>
   ((6, 7, 0), \<lparr>rx = 0, ry = 0, rw = 10, rh = 10\<rparr>, 3, 4)
     \<in> set (specCandidates \<lparr>sheetW = 10, sheetH = 10, kerf = 0, maxSheets = 1\<rparr> BSSF 3 4
              [\<lparr>rx = 0, ry = 0, rw = 10, rh = 10\<rparr>]) \<and>
   \<not> specLower (specScore \<lparr>sheetW = 10, sheetH = 10, kerf = 0, maxSheets = 1\<rparr> BSSF
                    \<lparr>rx = 0, ry = 0, rw = 10, rh = 10\<rparr> 4 3) (6, 7, 0)"
proof -
  let ?cfg = "\<lparr>sheetW = 10, sheetH = 10, kerf = 0, maxSheets = 1\<rparr>"
  let ?r = "\<lparr>rx = 0, ry = 0, rw = 10, rh = 10\<rparr>"
  let ?sh = "\<lparr>freeRects = [?r], pieces = [], usedArea = 0\<rparr>"
  let ?f = "\<lparr>fit_rect = ?r, fit_w = 3, fit_h = 4, fit_rotated = False,
            fit_score = \<lparr>primary = 6, secondary = 7, positionScore = 0\<rparr>\<rparr>"
  have e: "findBestFit ?cfg ?sh 3 4 BSSF = Some ?f"
    by (simp add: findBestFit_def fitStep_def candidate_def scoreFit_def isBetterScore_def)
  have c: "(specScore ?cfg BSSF ?r 4 3, ?r, 4, 3) \<in> set (specCandidates ?cfg BSSF 3 4 (freeRects ?sh))"
    by (simp add: specCandidates_def specFits_def)
  have a: "asCandidate ?f = ((6, 7, 0), ?r, 3, 4)"
    by (simp add: asCandidate_def scoreTriple_def)
  from findBestFit_best_candidate[of ?cfg ?sh 3 4 BSSF] e c a show ?thesis
    by fastforce
qed

section \<open>The free rectangles after an insertion\<close>

lemma isContained_refl: "isContained a a"
  by (simp add: isContained_def)


lemma nth_update_False: "keep[a := False] ! b \<Longrightarrow> keep ! b"
  by (cases "a = b"; cases "a < length keep") (simp_all add: list_update_beyond)

lemma pruneInner_done: "\<not> j < length rects \<Longrightarrow> pruneInner rects keep i j = keep"
  by (subst pruneInner.simps) simp

lemma pruneInner_skip:
  "j < length rects \<Longrightarrow> \<not> keep ! j \<Longrightarrow> pruneInner rects keep i j = pruneInner rects keep i (j + 1)"
  by (subst pruneInner.simps) simp

lemma pruneInner_break:
  "j < length rects \<Longrightarrow> keep ! j \<Longrightarrow> isContained (rects ! i) (rects ! j) \<Longrightarrow>
   pruneInner rects keep i j = keep[i := False]"
  by (subst pruneInner.simps) simp

lemma pruneInner_drop:
  "j < length rects \<Longrightarrow> keep ! j \<Longrightarrow> \<not> isContained (rects ! i) (rects ! j) \<Longrightarrow>
   isContained (rects ! j) (rects ! i) \<Longrightarrow>
   pruneInner rects keep i j = pruneInner rects (keep[j := False]) i (j + 1)"
  by (subst pruneInner.simps) simp

lemma pruneInner_pass:
  "j < length rects \<Longrightarrow> keep ! j \<Longrightarrow> \<not> isContained (rects ! i) (rects ! j) \<Longrightarrow>
   \<not> isContained (rects ! j) (rects ! i) \<Longrightarrow>
   pruneInner rects keep i j = pruneInner rects keep i (j + 1)"
  by (subst pruneInner.simps) simp


lemma pruneInner_mono:
  "pruneInner rects keep i j ! b \<Longrightarrow> keep ! b"
proof (induction rects keep i j rule: pruneInner.induct)
  case (1 rects keep i j)
  consider (stop) "\<not> j < length rects"
    | (skip) "j < length rects" "\<not> keep ! j"
    | (brk) "j < length rects" "keep ! j" "isContained (rects ! i) (rects ! j)"
    | (drop) "j < length rects" "keep ! j" "\<not> isContained (rects ! i) (rects ! j)"
        "isContained (rects ! j) (rects ! i)"
    | (pass) "j < length rects" "keep ! j" "\<not> isContained (rects ! i) (rects ! j)"
        "\<not> isContained (rects ! j) (rects ! i)"
    by blast
  then show ?case
  proof cases
    case stop
    with "1.prems" show ?thesis by (simp add: pruneInner_done)
  next
    case skip
    with "1.prems" "1.IH"(1) show ?thesis by (simp add: pruneInner_skip)
  next
    case brk
    with "1.prems" show ?thesis
      by (simp add: pruneInner_break nth_update_False)
  next
    case drop
    with "1.prems" have "pruneInner rects (keep[j := False]) i (j + 1) ! b"
      by (simp add: pruneInner_drop)
    with "1.IH"(2) drop have "keep[j := False] ! b" by simp
    then show ?thesis by (rule nth_update_False)
  next
    case pass
    with "1.prems" "1.IH"(3) show ?thesis by (simp add: pruneInner_pass)
  qed
qed




lemma pruneOuter_stop: "\<not> i < length rects \<Longrightarrow> pruneOuter rects keep i = keep"
  by (subst pruneOuter.simps) simp

lemma pruneOuter_skip:
  "i < length rects \<Longrightarrow> \<not> keep ! i \<Longrightarrow> pruneOuter rects keep i = pruneOuter rects keep (i + 1)"
  by (subst pruneOuter.simps) simp

lemma pruneOuter_run:
  "i < length rects \<Longrightarrow> keep ! i \<Longrightarrow>
   pruneOuter rects keep i = pruneOuter rects (pruneInner rects keep i (i + 1)) (i + 1)"
  by (subst pruneOuter.simps) simp


lemma pruneOuter_mono: "pruneOuter rects keep i ! b \<Longrightarrow> keep ! b"
proof (induction rects keep i rule: pruneOuter.induct)
  case (1 rects keep i)
  consider (stop) "\<not> i < length rects" | (skip) "i < length rects" "\<not> keep ! i"
    | (run) "i < length rects" "keep ! i" by blast
  then show ?case
  proof cases
    case stop
    with "1.prems" show ?thesis by (simp add: pruneOuter_stop)
  next
    case skip
    with "1.IH"(1) "1.prems" show ?thesis by (simp add: pruneOuter_skip)
  next
    case run
    with "1.prems" have "pruneOuter rects (pruneInner rects keep i (i + 1)) (i + 1) ! b"
      by (simp add: pruneOuter_run)
    with "1.IH"(2) run have "pruneInner rects keep i (i + 1) ! b" by simp
    then show ?thesis by (rule pruneInner_mono)
  qed
qed









lemma pruneFreeRects_subset: "set (freeRects (pruneFreeRects sh)) \<subseteq> set (freeRects sh)"
  by (auto simp: pruneFreeRects_def Let_def keptRects_def dest: set_zip_leftD)



lemma remainders_inside:
  "\<not> missesRect x y px2 py2 r \<Longrightarrow> q \<in> set (remainders x y px2 py2 r) \<Longrightarrow>
   isContained q r \<and> missesRect x y px2 py2 q"
  by (auto simp: remainders_def missesRect_def isContained_def split: if_splits)




section \<open>The strategy grid and its winner\<close>

lemma mset_insertBy: "mset (insertBy cmp a bs) = add_mset a (mset bs)"
  by (induction bs) simp_all

lemma mset_sortBy: "mset (sortBy cmp as) = mset as"
  by (induction as) (simp_all add: mset_insertBy)

lemma length_sortBy: "length (sortBy cmp as) = length as"
  using mset_sortBy[of cmp as] by (metis size_mset)


lemma isBetterResult_key:
  "isBetterResult cfg a b \<longleftrightarrow>
     length (unplacedList a) < length (unplacedList b) \<or>
     (length (unplacedList a) = length (unplacedList b) \<and>
        (length (sheets a) < length (sheets b) \<or>
         (length (sheets a) = length (sheets b) \<and>
            waste (resultScore cfg a) < waste (resultScore cfg b))))"
  by (auto simp: isBetterResult_def resultScore_def Let_def)



lemma isBetterResult_irrefl: "\<not> isBetterResult cfg a a"
  by (simp add: isBetterResult_key)

lemma isBetterResult_trans:
  "isBetterResult cfg a b \<Longrightarrow> isBetterResult cfg b c \<Longrightarrow> isBetterResult cfg a c"
  unfolding isBetterResult_key by (elim disjE conjE) simp_all

lemma isBetterResult_not_trans:
  "\<not> isBetterResult cfg a b \<Longrightarrow> \<not> isBetterResult cfg b c \<Longrightarrow> \<not> isBetterResult cfg a c"
  unfolding isBetterResult_key by auto

lemma selectBest_Some:
  "selectBest cfg rs bst = Some m \<Longrightarrow>
     (Some m = bst \<or> m \<in> set rs) \<and>
     (\<forall>r \<in> set rs. \<not> isBetterResult cfg r m) \<and>
     (\<forall>b. bst = Some b \<longrightarrow> \<not> isBetterResult cfg b m)"
proof (induction rs arbitrary: bst)
  case Nil
  then show ?case by (auto simp: isBetterResult_irrefl)
next
  case (Cons r rs)
  let ?nxt = "if (case bst of None \<Rightarrow> True | Some b \<Rightarrow> isBetterResult cfg r b) then Some r else bst"
  from Cons.prems have f: "selectBest cfg rs ?nxt = Some m" by simp
  note ih = Cons.IH[OF f]
  from ih have tl: "\<forall>r \<in> set rs. \<not> isBetterResult cfg r m" by blast
  show ?case
  proof (cases "case bst of None \<Rightarrow> True | Some b \<Rightarrow> isBetterResult cfg r b")
    case True
    then have n: "?nxt = Some r" by simp
    with ih have nr: "\<not> isBetterResult cfg r m" by simp
    from ih n have mem: "m = r \<or> m \<in> set rs" by auto
    have "\<not> isBetterResult cfg b m" if "bst = Some b" for b
    proof
      assume bm: "isBetterResult cfg b m"
      from that True have "isBetterResult cfg r b" by simp
      from this bm have "isBetterResult cfg r m" by (rule isBetterResult_trans)
      with nr show False by simp
    qed
    with nr mem tl show ?thesis by auto
  next
    case False
    then obtain b where b: "bst = Some b" "\<not> isBetterResult cfg r b"
      by (cases bst) auto
    with False have n: "?nxt = Some b" by simp
    with ih have nb: "\<not> isBetterResult cfg b m" by simp
    from ih n b have mem: "Some m = bst \<or> m \<in> set rs" by auto
    from isBetterResult_not_trans[OF b(2) nb] have "\<not> isBetterResult cfg r m" .
    with nb mem tl b show ?thesis by auto
  qed
qed

lemma selectBest_None: "selectBest cfg rs bst = None \<longleftrightarrow> bst = None \<and> rs = []"
  by (induction rs arbitrary: bst) auto

lemma strategyGrid_length: "length (strategyGrid cfg ps) = 12"
  by (simp add: strategyGrid_def sortStrategies_def heuristics_def)



section \<open>Inputs outside the caller's contract\<close>

lemma bestSheet_Nil: "bestSheet cfg heur p [] i bst = bst"
  by simp








section \<open>Kerf between placed pieces\<close>

text \<open>
  Claim C1 at a failing input. On a 5 by 5 sheet with kerf 1 the pieces 3 by 3, 1 by 5
  and 1 by 4 all pass the strategy grid onto one sheet. The second piece stands in the
  column from 4 to 5; the free rectangle left of it ends at 4 with no kerf reserved, and
  the third piece, turned to 4 by 1, fills it from 0 to 4 on the row from 4 to 5. The two
  pieces touch along the line at 4, and their kerf-widened footprints share the box from
  4 to 5 in both directions.
\<close>

theorem kerf_footprints_overlap:
  "packPieces
     [\<lparr>pid = ''a'', label = ''top'', furniture = ''box'', color = ''red'', width = 3, height = 3\<rparr>,
      \<lparr>pid = ''b'', label = ''side'', furniture = ''box'', color = ''red'', width = 1, height = 5\<rparr>,
      \<lparr>pid = ''c'', label = ''rail'', furniture = ''box'', color = ''red'', width = 1, height = 4\<rparr>]
     \<lparr>sheetW = 5, sheetH = 5, kerf = 1, maxSheets = 3\<rparr>
   = Some
      (Inr \<lparr>r_sheets =
          [\<lparr>o_pieces =
              [\<lparr>px = 0, py = 0, pw = 3, ph = 3, rotated = False,
                  plid = ''a'', pllabel = ''top'', plfurniture = ''box'',
                  plcolor = ''red'', origW = 3, origH = 3\<rparr>,
               \<lparr>px = 4, py = 0, pw = 1, ph = 5, rotated = False,
                  plid = ''b'', pllabel = ''side'', plfurniture = ''box'',
                  plcolor = ''red'', origW = 1, origH = 5\<rparr>,
               \<lparr>px = 0, py = 4, pw = 4, ph = 1, rotated = True,
                  plid = ''c'', pllabel = ''rail'', plfurniture = ''box'',
                  plcolor = ''red'', origW = 1, origH = 4\<rparr>],
              wastePercent = Fin 28, o_usedArea = 18, o_freeRects = [],
              largest = \<lparr>lf_w = 0, lf_h = 0, lf_area = 0, lf_pos = None\<rparr>,
              totalFreeArea = 0\<rparr>],
          r_unplaced = [],
          suggestions =
            [\<lparr>s_type = FutureUse, s_sheet = 1,
                s_message = FutureUseMsg 1 0 0\<rparr>]\<rparr>) \<and>
   footprintsOverlap \<lparr>sheetW = 5, sheetH = 5, kerf = 1, maxSheets = 3\<rparr>
     \<lparr>px = 4, py = 0, pw = 1, ph = 5, rotated = False,
        plid = ''b'', pllabel = ''side'', plfurniture = ''box'',
        plcolor = ''red'', origW = 1, origH = 5\<rparr>
     \<lparr>px = 0, py = 4, pw = 4, ph = 1, rotated = True,
        plid = ''c'', pllabel = ''rail'', plfurniture = ''box'',
        plcolor = ''red'', origW = 1, origH = 4\<rparr>"
proof (rule conjI)
  show "footprintsOverlap \<lparr>sheetW = 5, sheetH = 5, kerf = 1, maxSheets = 3\<rparr>
     \<lparr>px = 4, py = 0, pw = 1, ph = 5, rotated = False,
        plid = ''b'', pllabel = ''side'', plfurniture = ''box'',
        plcolor = ''red'', origW = 1, origH = 5\<rparr>
     \<lparr>px = 0, py = 4, pw = 4, ph = 1, rotated = True,
        plid = ''c'', pllabel = ''rail'', plfurniture = ''box'',
        plcolor = ''red'', origW = 1, origH = 4\<rparr>"
    by (simp add: footprintsOverlap_def footprintX2_def footprintY2_def)
qed code_simp

section \<open>Conservation of pieces\<close>

text \<open>
  Claim C2 at a failing input. On a 12 by 10 sheet without kerf and with two sheets
  allowed, the pieces 2 by 11, 6 by 9, 10 by 9 and 10 by 1 are all placed by the winning
  attempt (area order, best long side fit): the 10 by 9 piece on one sheet and the other
  three on the second, where the 6 by 9 piece lies turned. The consolidation moves the
  10 by 1 piece to the first sheet and rebuilds the second with best short side fit; the
  6 by 9 piece now lies unturned, the 2 by 11 piece no longer fits, and the rebuild loop,
  which ignores what \<^verbatim>\<open>tryPlace\<close> returns, goes on without it. The piece \<open>a\<close> is on no
  sheet of the result and not among the unplaced entries.
\<close>

theorem piece_lost_in_rebuild:
  "packPieces
     [\<lparr>pid = ''a'', label = ''rail'', furniture = ''box'', color = ''red'', width = 2, height = 11\<rparr>,
      \<lparr>pid = ''b'', label = ''side'', furniture = ''box'', color = ''red'', width = 6, height = 9\<rparr>,
      \<lparr>pid = ''c'', label = ''top'', furniture = ''box'', color = ''red'', width = 10, height = 9\<rparr>,
      \<lparr>pid = ''d'', label = ''strip'', furniture = ''box'', color = ''red'', width = 10, height = 1\<rparr>]
     \<lparr>sheetW = 12, sheetH = 10, kerf = 0, maxSheets = 2\<rparr>
   = Some
      (Inr \<lparr>r_sheets =
          [\<lparr>o_pieces =
              [\<lparr>px = 0, py = 0, pw = 10, ph = 9, rotated = False,
                  plid = ''c'', pllabel = ''top'', plfurniture = ''box'',
                  plcolor = ''red'', origW = 10, origH = 9\<rparr>,
               \<lparr>px = 10, py = 0, pw = 1, ph = 10, rotated = True,
                  plid = ''d'', pllabel = ''strip'', plfurniture = ''box'',
                  plcolor = ''red'', origW = 10, origH = 1\<rparr>],
              wastePercent = Fin (167 / 10), o_usedArea = 100,
              o_freeRects =
                [\<lparr>rx = 11, ry = 0, rw = 1, rh = 10\<rparr>,
                 \<lparr>rx = 0, ry = 9, rw = 10, rh = 1\<rparr>],
              largest =
                \<lparr>lf_w = 1, lf_h = 10, lf_area = 10, lf_pos = Some (11, 0)\<rparr>,
              totalFreeArea = 20\<rparr>,
           \<lparr>o_pieces =
              [\<lparr>px = 0, py = 0, pw = 6, ph = 9, rotated = False,
                  plid = ''b'', pllabel = ''side'', plfurniture = ''box'',
                  plcolor = ''red'', origW = 6, origH = 9\<rparr>],
              wastePercent = Fin 55, o_usedArea = 54,
              o_freeRects =
                [\<lparr>rx = 6, ry = 0, rw = 6, rh = 10\<rparr>,
                 \<lparr>rx = 0, ry = 9, rw = 12, rh = 1\<rparr>],
              largest =
                \<lparr>lf_w = 6, lf_h = 10, lf_area = 60, lf_pos = Some (6, 0)\<rparr>,
              totalFreeArea = 72\<rparr>],
          r_unplaced = [],
          suggestions =
            [\<lparr>s_type = FutureUse, s_sheet = 2,
                s_message = FutureUseMsg 2 6 10\<rparr>]\<rparr>) \<and>
   occurrences ''a''
     \<lparr>r_sheets =
          [\<lparr>o_pieces =
              [\<lparr>px = 0, py = 0, pw = 10, ph = 9, rotated = False,
                  plid = ''c'', pllabel = ''top'', plfurniture = ''box'',
                  plcolor = ''red'', origW = 10, origH = 9\<rparr>,
               \<lparr>px = 10, py = 0, pw = 1, ph = 10, rotated = True,
                  plid = ''d'', pllabel = ''strip'', plfurniture = ''box'',
                  plcolor = ''red'', origW = 10, origH = 1\<rparr>],
              wastePercent = Fin (167 / 10), o_usedArea = 100,
              o_freeRects =
                [\<lparr>rx = 11, ry = 0, rw = 1, rh = 10\<rparr>,
                 \<lparr>rx = 0, ry = 9, rw = 10, rh = 1\<rparr>],
              largest =
                \<lparr>lf_w = 1, lf_h = 10, lf_area = 10, lf_pos = Some (11, 0)\<rparr>,
              totalFreeArea = 20\<rparr>,
           \<lparr>o_pieces =
              [\<lparr>px = 0, py = 0, pw = 6, ph = 9, rotated = False,
                  plid = ''b'', pllabel = ''side'', plfurniture = ''box'',
                  plcolor = ''red'', origW = 6, origH = 9\<rparr>],
              wastePercent = Fin 55, o_usedArea = 54,
              o_freeRects =
                [\<lparr>rx = 6, ry = 0, rw = 6, rh = 10\<rparr>,
                 \<lparr>rx = 0, ry = 9, rw = 12, rh = 1\<rparr>],
              largest =
                \<lparr>lf_w = 6, lf_h = 10, lf_area = 60, lf_pos = Some (6, 0)\<rparr>,
              totalFreeArea = 72\<rparr>],
          r_unplaced = [],
          suggestions =
            [\<lparr>s_type = FutureUse, s_sheet = 2,
                s_message = FutureUseMsg 2 6 10\<rparr>]\<rparr> = 0"
proof (rule conjI)
qed code_simp+

section \<open>The consolidation loop returns\<close>

lemma pruneFreeRects_fields [simp]:
  "pieces (pruneFreeRects sh) = pieces sh" "usedArea (pruneFreeRects sh) = usedArea sh"
  by (simp_all add: pruneFreeRects_def Let_def)

lemma placeRect_fields [simp]:
  "pieces (placeRect cfg sh x y w h) = pieces sh" "usedArea (placeRect cfg sh x y w h) = usedArea sh"
  by (simp_all add: placeRect_def Let_def)

lemma tryPlace_Some:
  assumes "tryPlace cfg p sh heur = Some sh'"
  shows "\<exists>pl. pieces sh' = pieces sh @ [pl] \<and> fakePiece pl = p \<and>
              usedArea sh' = usedArea sh + width p * height p"
proof -
  from assms obtain f where f: "findBestFit cfg sh (width p) (height p) heur = Some f"
    by (auto simp: tryPlace_def split: option.splits)
  let ?pl = "\<lparr>px = rx (fit_rect f), py = ry (fit_rect f), pw = fit_w f, ph = fit_h f,
              rotated = fit_rotated f, plid = pid p, pllabel = label p,
              plfurniture = furniture p, plcolor = color p,
              origW = width p, origH = height p\<rparr>"
  from assms f have p: "pieces sh' = pieces sh @ [?pl]"
    and u: "usedArea sh' = usedArea sh + fit_w f * fit_h f"
    by (auto simp: tryPlace_def Let_def)
  from findBestFit_dims[OF f] have "fit_w f * fit_h f = width p * height p" by auto
  moreover have "fakePiece ?pl = p" by (simp add: fakePiece_def)
  ultimately have "pieces sh' = pieces sh @ [?pl] \<and> fakePiece ?pl = p \<and>
              usedArea sh' = usedArea sh + width p * height p"
    using p u by simp
  then show ?thesis by (rule exI)
qed

lemma tryPlace_iff_fit:
  "tryPlace cfg p sh heur = None \<longleftrightarrow> findBestFit cfg sh (width p) (height p) heur = None"
  by (simp add: tryPlace_def Let_def split: option.splits)

lemma areaOf_fake: "fakePiece pl = p \<Longrightarrow> areaOf pl = width p * height p"
  by (auto simp: fakePiece_def areaOf_def)

lemma sheetInv_tryPlace:
  assumes "tryPlace cfg p sh heur = Some sh'" "sheetInv sh" "0 \<le> width p * height p"
  shows "sheetInv sh' \<and> usedArea sh \<le> usedArea sh' \<and> length (pieces sh') = Suc (length (pieces sh))"
proof -
  from tryPlace_Some[OF assms(1)] obtain pl where
    pl: "pieces sh' = pieces sh @ [pl]" "fakePiece pl = p"
        "usedArea sh' = usedArea sh + width p * height p" by blast
  from areaOf_fake[OF pl(2)] have a: "areaOf pl = width p * height p" .
  with pl assms(2,3) show ?thesis by (auto simp: sheetInv_def)
qed

lemma sheetInv_newSheet: "sheetInv (newSheet cfg)"
  by (simp add: sheetInv_def newSheet_def)

lemma set_insertBy: "set (insertBy cmp a bs) = insert a (set bs)"
  by (induction bs) auto

lemma set_sortBy: "set (sortBy cmp as) = set as"
  by (induction as) (simp_all add: set_insertBy)

lemma insertBy_not_Nil: "insertBy cmp a bs \<noteq> []"
  by (cases bs) simp_all

lemma sortSheets_props:
  "length (sortSheets shs) = length shs" "set (sortSheets shs) = set shs"
  by (simp_all add: sortSheets_def length_sortBy set_sortBy)

lemma sorted_insertBy_usedArea:
  "sorted_wrt (\<lambda>a b. usedArea b \<le> usedArea a) bs \<Longrightarrow>
   sorted_wrt (\<lambda>a b. usedArea b \<le> usedArea a) (insertBy (\<lambda>a b. usedArea b - usedArea a) s bs)"
  by (induction bs) (auto simp: set_insertBy)

lemma sorted_sortSheets: "sorted_wrt (\<lambda>a b. usedArea b \<le> usedArea a) (sortSheets shs)"
  unfolding sortSheets_def by (induction shs) (simp_all add: sorted_insertBy_usedArea)

lemma last_sortSheets_least:
  assumes "shs \<noteq> []" "s \<in> set (butlast (sortSheets shs))"
  shows "usedArea (last (sortSheets shs)) \<le> usedArea s"
proof -
  let ?xs = "sortSheets shs"
  have ne: "?xs \<noteq> []" using assms(1) sortSheets_props(1)[of shs] by auto
  then have "?xs = butlast ?xs @ [last ?xs]" by simp
  then have "sorted_wrt (\<lambda>a b. usedArea b \<le> usedArea a) (butlast ?xs @ [last ?xs])"
    using sorted_sortSheets[of shs] by simp
  with assms(2) show ?thesis by (simp add: sorted_wrt_append)
qed

lemma last_insertBy:
  "bs \<noteq> [] \<Longrightarrow> cmp a (last bs) \<le> 0 \<Longrightarrow> last (insertBy cmp a bs) = last bs"
  by (induction bs) (auto simp: insertBy_not_Nil)

lemma last_sortSheets_snoc:
  "(\<forall>e \<in> set es. usedArea s \<le> usedArea e) \<Longrightarrow> last (sortSheets (es @ [s])) = s"
proof (induction es)
  case Nil
  then show ?case by (simp add: sortSheets_def)
next
  case (Cons e es)
  then have ih: "last (sortBy (\<lambda>a b. usedArea b - usedArea a) (es @ [s])) = s"
    by (simp add: sortSheets_def)
  have ne: "sortBy (\<lambda>a b. usedArea b - usedArea a) (es @ [s]) \<noteq> []"
    using length_sortBy[of "\<lambda>a b. usedArea b - usedArea a" "es @ [s]"] by auto
  from Cons.prems have "usedArea s - usedArea e \<le> 0" by simp
  with last_insertBy[OF ne, of "\<lambda>a b. usedArea b - usedArea a" e] ih
  show ?case by (simp add: sortSheets_def)
qed

text \<open>Sheets after some placements: as many, each kept sound and no emptier.\<close>

lemma tryEarlier_grows:
  assumes "tryEarlier cfg fp es = Some es'" "\<forall>e \<in> set es. sheetInv e" "0 \<le> width fp * height fp"
  shows "list_all2 (\<lambda>a b. usedArea a \<le> usedArea b \<and> sheetInv b) es es'"
  using assms
proof (induction es arbitrary: es')
  case Nil
  then show ?case by simp
next
  case (Cons e es)
  have refl: "list_all2 (\<lambda>a b. usedArea a \<le> usedArea b \<and> sheetInv b) es es"
    using Cons.prems(2) by (simp add: list_all2_same)
  show ?case
  proof (cases "findBestFit cfg e (width fp) (height fp) BSSF")
    case None
    with Cons.prems(1) obtain t where t: "tryEarlier cfg fp es = Some t" "es' = e # t"
      by auto
    from Cons.IH[OF t(1)] Cons.prems(2,3) t(2) show ?thesis by simp
  next
    case (Some f)
    then obtain e' where e': "tryPlace cfg fp e BSSF = Some e'"
      using tryPlace_iff_fit[of cfg fp e BSSF] by auto
    with Some Cons.prems(1) have "es' = e' # es" by simp
    moreover from sheetInv_tryPlace[OF e' _ Cons.prems(3)] Cons.prems(2)
    have "usedArea e \<le> usedArea e' \<and> sheetInv e'" by simp
    ultimately show ?thesis using refl by simp
  qed
qed

lemma grows_trans:
  "list_all2 (\<lambda>a b. usedArea a \<le> usedArea b \<and> sheetInv b) xs ys \<Longrightarrow>
   list_all2 (\<lambda>a b. usedArea a \<le> usedArea b \<and> sheetInv b) ys zs \<Longrightarrow>
   list_all2 (\<lambda>a b. usedArea a \<le> usedArea b \<and> sheetInv b) xs zs"
  unfolding list_all2_conv_all_nth by (metis order_trans)

lemma grows_sheetInv:
  "list_all2 (\<lambda>a b. usedArea a \<le> usedArea b \<and> sheetInv b) xs ys \<Longrightarrow> \<forall>e \<in> set ys. sheetInv e"
  by (auto simp: list_all2_conv_all_nth in_set_conv_nth)

lemma moveLoop_grows:
  assumes "moveLoop cfg ps es = (es', moved)" "\<forall>e \<in> set es. sheetInv e"
    "\<forall>p \<in> set ps. 0 \<le> areaOf p"
  shows "list_all2 (\<lambda>a b. usedArea a \<le> usedArea b \<and> sheetInv b) es es' \<and> length moved = length ps"
  using assms
proof (induction ps arbitrary: es es' moved)
  case Nil
  then show ?case by (simp add: list_all2_same)
next
  case (Cons p ps)
  have a: "0 \<le> width (fakePiece p) * height (fakePiece p)"
    using Cons.prems(3) by (simp add: fakePiece_def areaOf_def)
  show ?case
  proof (cases "tryEarlier cfg (fakePiece p) es")
    case None
    with Cons.prems(1) obtain m where m: "moveLoop cfg ps es = (es', m)" "moved = False # m"
      by (auto split: prod.splits)
    from Cons.IH[OF m(1) Cons.prems(2)] Cons.prems(3) m(2) show ?thesis by simp
  next
    case (Some e1)
    with Cons.prems(1) obtain m where m: "moveLoop cfg ps e1 = (es', m)" "moved = True # m"
      by (auto split: prod.splits)
    from tryEarlier_grows[OF Some Cons.prems(2) a]
    have g1: "list_all2 (\<lambda>a b. usedArea a \<le> usedArea b \<and> sheetInv b) es e1" .
    from Cons.IH[OF m(1) grows_sheetInv[OF g1]] Cons.prems(3)
    have g2: "list_all2 (\<lambda>a b. usedArea a \<le> usedArea b \<and> sheetInv b) e1 es'"
      and l: "length m = length ps" by simp_all
    from grows_trans[OF g1 g2] l m(2) show ?thesis by simp
  qed
qed

lemma areaSum_nonneg: "\<forall>p \<in> set ps. 0 \<le> areaOf p \<Longrightarrow> 0 \<le> sum_list (map areaOf ps)"
  by (induction ps) simp_all

lemma rebuild_bounds:
  assumes "sheetInv sh" "\<forall>p \<in> set ps. 0 \<le> areaOf p"
  shows "sheetInv (rebuild cfg ps sh) \<and>
         usedArea (rebuild cfg ps sh) \<le> usedArea sh + sum_list (map areaOf ps) \<and>
         length (pieces (rebuild cfg ps sh)) \<le> length (pieces sh) + length ps"
  using assms
proof (induction ps arbitrary: sh)
  case Nil
  then show ?case by simp
next
  case (Cons p ps)
  have a: "0 \<le> width (fakePiece p) * height (fakePiece p)"
    and ae: "areaOf p = width (fakePiece p) * height (fakePiece p)"
    using Cons.prems(2) by (simp_all add: fakePiece_def areaOf_def)
  have nn: "0 \<le> sum_list (map areaOf ps)"
    using Cons.prems(2) by (simp add: areaSum_nonneg)
  show ?case
  proof (cases "tryPlace cfg (fakePiece p) sh BSSF")
    case None
    with Cons.IH[OF Cons.prems(1)] Cons.prems(2) a ae show ?thesis by force
  next
    case (Some sh')
    from tryPlace_Some[OF Some] obtain pl where
      pl: "pieces sh' = pieces sh @ [pl]" "usedArea sh' = usedArea sh + width (fakePiece p) * height (fakePiece p)"
      by blast
    from sheetInv_tryPlace[OF Some Cons.prems(1) a] have i: "sheetInv sh'" by simp
    from Cons.IH[OF i] Cons.prems(2) Some pl ae show ?thesis by force
  qed
qed

lemma remaining_length:
  "length moved = length ps \<Longrightarrow>
   length (remaining ps moved) + length (filter id moved) = length ps"
proof (induction ps moved rule: list_induct2')
  case (4 p ps m moved)
  then show ?case by (cases m) (simp_all add: remaining_def)
qed (simp_all add: remaining_def)

lemma remaining_subset: "set (remaining ps moved) \<subseteq> set ps"
  by (auto simp: remaining_def dest: set_zip_leftD)

lemma remaining_area:
  "\<forall>p \<in> set ps. 0 \<le> areaOf p \<Longrightarrow>
   sum_list (map areaOf (remaining ps moved)) \<le> sum_list (map areaOf ps)"
proof (induction ps moved rule: list_induct2')
  case (2 p ps)
  then show ?case by (simp add: remaining_def areaSum_nonneg)
next
  case (4 p ps m moved)
  then have "0 \<le> areaOf p" by simp
  with 4 show ?case by (cases m) (simp_all add: remaining_def)
qed (simp_all add: remaining_def)

text \<open>One pass on sound sheets: the sheets stay sound, they do not become more, and a
  pass that moved a piece lowers the measure.\<close>

lemma consolidatePass_step:
  assumes inv: "\<forall>s \<in> set shs. sheetInv s" and ne: "shs \<noteq> []"
    and pass: "consolidatePass cfg shs = (shs', improved)"
  shows "(\<forall>s \<in> set shs'. sheetInv s) \<and> length shs' \<le> length shs \<and>
         (improved \<longrightarrow> (passMeasure shs', passMeasure shs) \<in> less_than <*lex*> less_than)"
proof -
  let ?srt = "sortSheets shs"
  let ?L = "last ?srt"
  let ?ps = "pieces ?L"
  obtain e' moved where ml: "moveLoop cfg ?ps (butlast ?srt) = (e', moved)"
    by (cases "moveLoop cfg ?ps (butlast ?srt)") auto
  let ?n = "length (filter id moved)"
  let ?R = "rebuild cfg (remaining ?ps moved) (newSheet cfg)"
  have sne: "?srt \<noteq> []" using ne sortSheets_props(1)[of shs] by auto
  then have Lin: "?L \<in> set shs" using sortSheets_props(2)[of shs] last_in_set by blast
  with inv have Linv: "sheetInv ?L" by blast
  then have pos: "\<forall>p \<in> set ?ps. 0 \<le> areaOf p"
    and used: "usedArea ?L = sum_list (map areaOf ?ps)" by (simp_all add: sheetInv_def)
  have binv: "\<forall>e \<in> set (butlast ?srt). sheetInv e"
    using inv sortSheets_props(2)[of shs] by (auto dest: in_set_butlastD)
  from moveLoop_grows[OF ml binv pos]
  have g: "list_all2 (\<lambda>a b. usedArea a \<le> usedArea b \<and> sheetInv b) (butlast ?srt) e'"
    and lm: "length moved = length ?ps" by simp_all
  from grows_sheetInv[OF g] have einv: "\<forall>e \<in> set e'. sheetInv e" .
  have le': "length e' = length shs - 1"
    using g sortSheets_props(1)[of shs] by (auto dest: list_all2_lengthD)
  have big: "usedArea ?L \<le> usedArea e" if "e \<in> set e'" for e
  proof -
    from that obtain i where i: "i < length e'" "e' ! i = e" by (auto simp: in_set_conv_nth)
    with g have "usedArea (butlast ?srt ! i) \<le> usedArea e" and "i < length (butlast ?srt)"
      by (auto simp: list_all2_conv_all_nth)
    moreover from this(2) have "butlast ?srt ! i \<in> set (butlast ?srt)" by simp
    from last_sortSheets_least[OF ne this] have "usedArea ?L \<le> usedArea (butlast ?srt ! i)" .
    ultimately show ?thesis by simp
  qed
  have res: "(shs', improved) =
      (if ?n > 0 then (if ?n = length ?ps then (e', True) else (e' @ [?R], True))
       else (e' @ [?L], False))"
    using pass ml by (simp add: consolidatePass_def Let_def)
  consider (none) "?n = 0" | (all) "?n > 0" "?n = length ?ps" | (some) "?n > 0" "?n \<noteq> length ?ps"
    by blast
  then show ?thesis
  proof cases
    case none
    with res have "shs' = e' @ [?L]" "\<not> improved" by simp_all
    with einv Linv le' ne show ?thesis by (cases shs) auto
  next
    case all
    with res have r: "shs' = e'" "improved" by simp_all
    with le' ne have "length shs' < length shs" by (cases shs) auto
    with r einv show ?thesis by (simp add: passMeasure_def)
  next
    case some
    with res have r: "shs' = e' @ [?R]" "improved" by simp_all
    have rpos: "\<forall>p \<in> set (remaining ?ps moved). 0 \<le> areaOf p"
      using pos remaining_subset[of ?ps moved] by blast
    from rebuild_bounds[OF sheetInv_newSheet rpos, of cfg cfg]
    have Rinv: "sheetInv ?R"
      and Rused: "usedArea ?R \<le> sum_list (map areaOf (remaining ?ps moved))"
      and Rlen: "length (pieces ?R) \<le> length (remaining ?ps moved)"
      by (simp_all add: newSheet_def)
    from Rused remaining_area[OF pos, of moved] used have "usedArea ?R \<le> usedArea ?L" by simp
    with big have "\<forall>e \<in> set e'. usedArea ?R \<le> usedArea e" by force
    from last_sortSheets_snoc[OF this] have lst: "last (sortSheets shs') = ?R" using r by simp
    from remaining_length[OF lm] some(1) Rlen have "length (pieces ?R) < length ?ps" by linarith
    moreover have "length shs' = length shs" using r le' ne by (cases shs) auto
    ultimately have "(passMeasure shs', passMeasure shs) \<in> less_than <*lex*> less_than"
      using lst by (simp add: passMeasure_def)
    with r einv Rinv \<open>length shs' = length shs\<close> show ?thesis by auto
  qed
qed

lemma consolidateSheets_returns_aux:
  "passMeasure (sheets res) = m \<Longrightarrow> \<forall>s \<in> set (sheets res). sheetInv s \<Longrightarrow>
   \<exists>r. consolidateSheets cfg res = Some r \<and> length (sheets r) \<le> length (sheets res) \<and>
       unplacedList r = unplacedList res"
proof (induction m arbitrary: res rule: wf_induct_rule[OF wf_lex_prod[OF wf_less_than wf_less_than]])
  case (1 m)
  show ?case
  proof (cases "length (sheets res) \<le> 1")
    case True
    then show ?thesis by (subst consolidateSheets.simps) simp
  next
    case False
    then have ne: "sheets res \<noteq> []" by auto
    obtain shs' improved where p: "consolidatePass cfg (sheets res) = (shs', improved)"
      by (cases "consolidatePass cfg (sheets res)") auto
    from consolidatePass_step[OF "1.prems"(2) ne p]
    have inv': "\<forall>s \<in> set shs'. sheetInv s" and len: "length shs' \<le> length (sheets res)"
      and dec: "improved \<longrightarrow> (passMeasure shs', passMeasure (sheets res)) \<in> less_than <*lex*> less_than"
      by simp_all
    show ?thesis
    proof (cases improved)
      case False
      with p \<open>\<not> length (sheets res) \<le> 1\<close> len show ?thesis
        by (subst consolidateSheets.simps) simp
    next
      case True
      with dec "1.prems"(1) have d: "(passMeasure (sheets (res\<lparr>sheets := shs'\<rparr>)), m) \<in> less_than <*lex*> less_than"
        by simp
      from "1.IH"[OF d refl] inv' obtain r where
        r: "consolidateSheets cfg (res\<lparr>sheets := shs'\<rparr>) = Some r"
           "length (sheets r) \<le> length shs'" "unplacedList r = unplacedList res"
        by auto
      have "consolidateSheets cfg res = Some r"
        using True p \<open>\<not> length (sheets res) \<le> 1\<close> r(1) by (subst consolidateSheets.simps) simp
      with r len show ?thesis by auto
    qed
  qed
qed

lemma consolidateSheets_returns:
  "\<forall>s \<in> set (sheets res). sheetInv s \<Longrightarrow>
   \<exists>r. consolidateSheets cfg res = Some r \<and> length (sheets r) \<le> length (sheets res) \<and>
       unplacedList r = unplacedList res"
  using consolidateSheets_returns_aux[OF refl] .

text \<open>The strategy runner keeps its sheets sound and within the cap.\<close>

lemma packStep_sheets:
  "sheets (packStep cfg heur p st) = sheets st \<or>
   (\<exists>i s'. i < length (sheets st) \<and> tryPlace cfg p (sheets st ! i) heur = Some s' \<and>
           sheets (packStep cfg heur p st) = (sheets st)[i := s']) \<or>
   (\<exists>s. int (length (sheets st)) < maxSheets cfg \<and> tryPlace cfg p (newSheet cfg) heur = Some s \<and>
        sheets (packStep cfg heur p st) = sheets st @ [s])"
proof (cases "fitsAtAll cfg p")
  case False
  then show ?thesis by (simp add: packStep_def)
next
  case True
  show ?thesis
  proof (cases "bestSheet cfg heur p (sheets st) 0 None")
    case None
    with True show ?thesis by (auto simp: packStep_def split: option.splits)
  next
    case (Some a)
    obtain i sc where a: "a = (i, sc)" by (cases a)
    show ?thesis
    proof (cases "tryPlace cfg p (sheets st ! i) heur")
      case None
      with True Some a show ?thesis by (simp add: packStep_def)
    next
      case s': (Some s')
      show ?thesis
      proof (cases "i < length (sheets st)")
        case True
        with \<open>fitsAtAll cfg p\<close> Some a s' show ?thesis by (auto simp: packStep_def)
      next
        case False
        with \<open>fitsAtAll cfg p\<close> Some a s' show ?thesis
          by (simp add: packStep_def list_update_beyond)
      qed
    qed
  qed
qed

lemma packStep_length:
  "length (sheets (packStep cfg heur p st)) = length (sheets st) \<or>
   (length (sheets (packStep cfg heur p st)) = Suc (length (sheets st)) \<and>
    int (length (sheets st)) < maxSheets cfg)"
  using packStep_sheets[of cfg heur p st] by auto

lemma packStep_sheetInv:
  assumes "\<forall>s \<in> set (sheets st). sheetInv s" "0 \<le> width p * height p"
  shows "\<forall>s \<in> set (sheets (packStep cfg heur p st)). sheetInv s"
proof -
  consider (same) "sheets (packStep cfg heur p st) = sheets st"
    | (upd) i s' where "i < length (sheets st)" "tryPlace cfg p (sheets st ! i) heur = Some s'"
        "sheets (packStep cfg heur p st) = (sheets st)[i := s']"
    | (new) s where "tryPlace cfg p (newSheet cfg) heur = Some s"
        "sheets (packStep cfg heur p st) = sheets st @ [s]"
    using packStep_sheets[of cfg heur p st] by blast
  then show ?thesis
  proof cases
    case same
    with assms(1) show ?thesis by simp
  next
    case upd
    from upd(1) assms(1) have "sheetInv (sheets st ! i)" by simp
    from sheetInv_tryPlace[OF upd(2) this assms(2)] have "sheetInv s'" by simp
    with assms(1) upd(3) show ?thesis
      using set_update_subset_insert[of "sheets st" i s'] by auto
  next
    case new
    from sheetInv_tryPlace[OF new(1) sheetInv_newSheet assms(2)] have "sheetInv s" by simp
    with assms(1) new(2) show ?thesis by auto
  qed
qed

lemma runLoop_sheetInv:
  "\<forall>s \<in> set (sheets st). sheetInv s \<Longrightarrow> \<forall>p \<in> set ps. 0 \<le> width p * height p \<Longrightarrow>
   \<forall>s \<in> set (sheets (runLoop cfg heur ps st)). sheetInv s"
proof (induction ps arbitrary: st)
  case Nil
  then show ?case by simp
next
  case (Cons p ps)
  from packStep_sheetInv[OF Cons.prems(1), of p cfg heur] Cons.prems(2)
  have "\<forall>s \<in> set (sheets (packStep cfg heur p st)). sheetInv s" by simp
  from Cons.IH[OF this] Cons.prems(2) show ?case by simp
qed

lemma runLoop_cap:
  "int (length (sheets st)) \<le> maxSheets cfg \<Longrightarrow>
   int (length (sheets (runLoop cfg heur ps st))) \<le> maxSheets cfg"
proof (induction ps arbitrary: st)
  case Nil
  then show ?case by simp
next
  case (Cons p ps)
  from packStep_length[of cfg heur p st] Cons.prems
  have "int (length (sheets (packStep cfg heur p st))) \<le> maxSheets cfg" by auto
  from Cons.IH[OF this] show ?case by simp
qed

lemma strategyGrid_member:
  "r \<in> set (strategyGrid cfg ps) \<Longrightarrow>
   \<exists>sortFn heur. r = runLoop cfg heur (sortBy sortFn ps) \<lparr>sheets = [], unplacedList = []\<rparr>"
  by (auto simp: strategyGrid_def runStrategy_def)

lemma strategyGrid_sheetInv:
  assumes "\<forall>p \<in> set ps. 0 < width p \<and> 0 < height p" "r \<in> set (strategyGrid cfg ps)"
  shows "\<forall>s \<in> set (sheets r). sheetInv s"
proof -
  from strategyGrid_member[OF assms(2)] obtain sortFn heur where
    r: "r = runLoop cfg heur (sortBy sortFn ps) \<lparr>sheets = [], unplacedList = []\<rparr>" by blast
  have "\<forall>p \<in> set (sortBy sortFn ps). 0 \<le> width p * height p"
    using assms(1) by (auto simp: set_sortBy intro: mult_nonneg_nonneg less_imp_le)
  from runLoop_sheetInv[OF _ this, of "\<lparr>sheets = [], unplacedList = []\<rparr>" cfg heur] r
  show ?thesis by simp
qed

lemma strategyGrid_cap:
  assumes "0 \<le> maxSheets cfg" "r \<in> set (strategyGrid cfg ps)"
  shows "int (length (sheets r)) \<le> maxSheets cfg"
proof -
  from strategyGrid_member[OF assms(2)] obtain sortFn heur where
    r: "r = runLoop cfg heur (sortBy sortFn ps) \<lparr>sheets = [], unplacedList = []\<rparr>" by blast
  from runLoop_cap[of "\<lparr>sheets = [], unplacedList = []\<rparr>" cfg heur "sortBy sortFn ps"] assms(1) r
  show ?thesis by simp
qed

lemma selectBest_grid:
  "\<exists>m. selectBest cfg (strategyGrid cfg ps) None = Some m \<and> m \<in> set (strategyGrid cfg ps)"
proof -
  have "selectBest cfg (strategyGrid cfg ps) None \<noteq> None"
    using strategyGrid_length[of cfg ps] by (auto simp: selectBest_None)
  then obtain m where m: "selectBest cfg (strategyGrid cfg ps) None = Some m" by blast
  from selectBest_Some[OF m] m show ?thesis by auto
qed

lemma tryEarlier_length: "tryEarlier cfg fp es = Some es' \<Longrightarrow> length es' = length es"
  by (induction es arbitrary: es') (auto split: option.splits)

lemma moveLoop_length: "moveLoop cfg ps es = (es', moved) \<Longrightarrow> length es' = length es"
proof (induction ps arbitrary: es es' moved)
  case Nil
  then show ?case by simp
next
  case (Cons p ps)
  show ?case
  proof (cases "tryEarlier cfg (fakePiece p) es")
    case None
    with Cons.prems obtain m where "moveLoop cfg ps es = (es', m)"
      by (auto split: prod.splits)
    from Cons.IH[OF this] show ?thesis .
  next
    case (Some e1)
    with Cons.prems obtain m where "moveLoop cfg ps e1 = (es', m)"
      by (auto split: prod.splits)
    from Cons.IH[OF this] tryEarlier_length[OF Some] show ?thesis by simp
  qed
qed

lemma consolidatePass_length:
  assumes "shs \<noteq> []" "consolidatePass cfg shs = (shs', improved)"
  shows "length shs' \<le> length shs"
proof -
  obtain e' moved where ml: "moveLoop cfg (pieces (last (sortSheets shs))) (butlast (sortSheets shs)) = (e', moved)"
    by (cases "moveLoop cfg (pieces (last (sortSheets shs))) (butlast (sortSheets shs))") auto
  from moveLoop_length[OF ml] have "length e' = length shs - 1"
    by (simp add: sortSheets_props)
  moreover have "length shs' = length e' \<or> length shs' = Suc (length e')"
    using assms(2) ml by (auto simp: consolidatePass_def Let_def split: if_splits)
  ultimately show ?thesis using assms(1) by (cases shs) auto
qed


lemma consolidateSheets_length:
  assumes "consolidateSheets cfg r = Some r'"
  shows "length (sheets r') \<le> length (sheets r)"
proof (rule consolidateSheets.raw_induct[where P = "\<lambda>cfg r r'. length (sheets r') \<le> length (sheets r)",
        OF _ assms])
  fix f cfg res y
  assume ih: "\<And>c r y. f c r = Some y \<Longrightarrow> length (sheets y) \<le> length (sheets r)"
    and eq: "(if length (sheets res) \<le> 1 then Some res
      else case consolidatePass cfg (sheets res) of
           (shs, improved) \<Rightarrow>
             if improved then f cfg (res\<lparr>sheets := shs\<rparr>)
             else Some (res\<lparr>sheets := shs\<rparr>)) = Some y"
  show "length (sheets y) \<le> length (sheets res)"
  proof (cases "length (sheets res) \<le> 1")
    case True
    with eq show ?thesis by auto
  next
    case False
    then have ne: "sheets res \<noteq> []" by auto
    obtain shs' improved where p: "consolidatePass cfg (sheets res) = (shs', improved)"
      by (cases "consolidatePass cfg (sheets res)") auto
    from consolidatePass_length[OF ne p] have l: "length shs' \<le> length (sheets res)" .
    show ?thesis
    proof (cases improved)
      case True
      with False p eq have "f cfg (res\<lparr>sheets := shs'\<rparr>) = Some y" by simp
      from ih[OF this] l show ?thesis by simp
    next
      case f: False
      with False p eq have "y = res\<lparr>sheets := shs'\<rparr>" by simp
      with l show ?thesis by simp
    qed
  qed
qed



section \<open>Outside the data model the loop can cycle\<close>

text \<open>
  The positive dimensions are needed. A piece of width \<open>-2\<close> fits every free rectangle
  and lowers the used area of the sheet that takes it, so the two sheets below trade
  places under the sort and the piece is moved back and forth: a pass turns the first list
  of sheets into the second, the next pass turns it back, and both report a move.
\<close>

lemma consolidatePass_cycle:
  "consolidatePass \<lparr>sheetW = 4, sheetH = 4, kerf = 0, maxSheets = 2\<rparr>
     [\<lparr>freeRects = [\<lparr>rx = 3, ry = 0, rw = 1, rh = 4\<rparr>, \<lparr>rx = 0, ry = 3, rw = 4, rh = 1\<rparr>],
        pieces =
          [\<lparr>px = 0, py = 0, pw = 3, ph = 3, rotated = False, plid = ''b'',
              pllabel = ''side'', plfurniture = ''box'', plcolor = ''red'',
              origW = 3, origH = 3\<rparr>,
           \<lparr>px = 3, py = 0, pw = 1, ph = - 2, rotated = True, plid = ''c'',
              pllabel = ''rail'', plfurniture = ''box'', plcolor = ''red'',
              origW = - 2, origH = 1\<rparr>],
        usedArea = 7\<rparr>,
      \<lparr>freeRects = [\<lparr>rx = 0, ry = 2, rw = 4, rh = 2\<rparr>],
        pieces =
          [\<lparr>px = 0, py = 0, pw = 4, ph = 2, rotated = False, plid = ''a'',
              pllabel = ''top'', plfurniture = ''box'', plcolor = ''red'',
              origW = 4, origH = 2\<rparr>],
        usedArea = 8\<rparr>]
   = ([\<lparr>freeRects = [\<lparr>rx = 0, ry = 2, rw = 4, rh = 2\<rparr>],
        pieces =
          [\<lparr>px = 0, py = 0, pw = 4, ph = 2, rotated = False, plid = ''a'',
              pllabel = ''top'', plfurniture = ''box'', plcolor = ''red'',
              origW = 4, origH = 2\<rparr>,
           \<lparr>px = 0, py = 2, pw = - 2, ph = 1, rotated = False, plid = ''c'',
              pllabel = ''rail'', plfurniture = ''box'', plcolor = ''red'',
              origW = - 2, origH = 1\<rparr>],
        usedArea = 6\<rparr>,
      \<lparr>freeRects = [\<lparr>rx = 3, ry = 0, rw = 1, rh = 4\<rparr>, \<lparr>rx = 0, ry = 3, rw = 4, rh = 1\<rparr>],
        pieces =
          [\<lparr>px = 0, py = 0, pw = 3, ph = 3, rotated = False, plid = ''b'',
              pllabel = ''side'', plfurniture = ''box'', plcolor = ''red'',
              origW = 3, origH = 3\<rparr>],
        usedArea = 9\<rparr>], True)"
  "consolidatePass \<lparr>sheetW = 4, sheetH = 4, kerf = 0, maxSheets = 2\<rparr>
     [\<lparr>freeRects = [\<lparr>rx = 0, ry = 2, rw = 4, rh = 2\<rparr>],
        pieces =
          [\<lparr>px = 0, py = 0, pw = 4, ph = 2, rotated = False, plid = ''a'',
              pllabel = ''top'', plfurniture = ''box'', plcolor = ''red'',
              origW = 4, origH = 2\<rparr>,
           \<lparr>px = 0, py = 2, pw = - 2, ph = 1, rotated = False, plid = ''c'',
              pllabel = ''rail'', plfurniture = ''box'', plcolor = ''red'',
              origW = - 2, origH = 1\<rparr>],
        usedArea = 6\<rparr>,
      \<lparr>freeRects = [\<lparr>rx = 3, ry = 0, rw = 1, rh = 4\<rparr>, \<lparr>rx = 0, ry = 3, rw = 4, rh = 1\<rparr>],
        pieces =
          [\<lparr>px = 0, py = 0, pw = 3, ph = 3, rotated = False, plid = ''b'',
              pllabel = ''side'', plfurniture = ''box'', plcolor = ''red'',
              origW = 3, origH = 3\<rparr>],
        usedArea = 9\<rparr>]
   = ([\<lparr>freeRects = [\<lparr>rx = 3, ry = 0, rw = 1, rh = 4\<rparr>, \<lparr>rx = 0, ry = 3, rw = 4, rh = 1\<rparr>],
        pieces =
          [\<lparr>px = 0, py = 0, pw = 3, ph = 3, rotated = False, plid = ''b'',
              pllabel = ''side'', plfurniture = ''box'', plcolor = ''red'',
              origW = 3, origH = 3\<rparr>,
           \<lparr>px = 3, py = 0, pw = 1, ph = - 2, rotated = True, plid = ''c'',
              pllabel = ''rail'', plfurniture = ''box'', plcolor = ''red'',
              origW = - 2, origH = 1\<rparr>],
        usedArea = 7\<rparr>,
      \<lparr>freeRects = [\<lparr>rx = 0, ry = 2, rw = 4, rh = 2\<rparr>],
        pieces =
          [\<lparr>px = 0, py = 0, pw = 4, ph = 2, rotated = False, plid = ''a'',
              pllabel = ''top'', plfurniture = ''box'', plcolor = ''red'',
              origW = 4, origH = 2\<rparr>],
        usedArea = 8\<rparr>], True)"
  by code_simp+

lemma consolidateSheets_cycles:
  "consolidateSheets \<lparr>sheetW = 4, sheetH = 4, kerf = 0, maxSheets = 2\<rparr>
     \<lparr>sheets = [\<lparr>freeRects = [\<lparr>rx = 3, ry = 0, rw = 1, rh = 4\<rparr>, \<lparr>rx = 0, ry = 3, rw = 4, rh = 1\<rparr>],
        pieces =
          [\<lparr>px = 0, py = 0, pw = 3, ph = 3, rotated = False, plid = ''b'',
              pllabel = ''side'', plfurniture = ''box'', plcolor = ''red'',
              origW = 3, origH = 3\<rparr>,
           \<lparr>px = 3, py = 0, pw = 1, ph = - 2, rotated = True, plid = ''c'',
              pllabel = ''rail'', plfurniture = ''box'', plcolor = ''red'',
              origW = - 2, origH = 1\<rparr>],
        usedArea = 7\<rparr>,
      \<lparr>freeRects = [\<lparr>rx = 0, ry = 2, rw = 4, rh = 2\<rparr>],
        pieces =
          [\<lparr>px = 0, py = 0, pw = 4, ph = 2, rotated = False, plid = ''a'',
              pllabel = ''top'', plfurniture = ''box'', plcolor = ''red'',
              origW = 4, origH = 2\<rparr>],
        usedArea = 8\<rparr>],
      unplacedList = []\<rparr> = None"
proof (rule ccontr)
  let ?cfg = "\<lparr>sheetW = 4, sheetH = 4, kerf = 0, maxSheets = 2\<rparr>"
  let ?A = "[\<lparr>freeRects = [\<lparr>rx = 3, ry = 0, rw = 1, rh = 4\<rparr>, \<lparr>rx = 0, ry = 3, rw = 4, rh = 1\<rparr>],
        pieces =
          [\<lparr>px = 0, py = 0, pw = 3, ph = 3, rotated = False, plid = ''b'',
              pllabel = ''side'', plfurniture = ''box'', plcolor = ''red'',
              origW = 3, origH = 3\<rparr>,
           \<lparr>px = 3, py = 0, pw = 1, ph = - 2, rotated = True, plid = ''c'',
              pllabel = ''rail'', plfurniture = ''box'', plcolor = ''red'',
              origW = - 2, origH = 1\<rparr>],
        usedArea = 7\<rparr>,
      \<lparr>freeRects = [\<lparr>rx = 0, ry = 2, rw = 4, rh = 2\<rparr>],
        pieces =
          [\<lparr>px = 0, py = 0, pw = 4, ph = 2, rotated = False, plid = ''a'',
              pllabel = ''top'', plfurniture = ''box'', plcolor = ''red'',
              origW = 4, origH = 2\<rparr>],
        usedArea = 8\<rparr>]"
  let ?B = "[\<lparr>freeRects = [\<lparr>rx = 0, ry = 2, rw = 4, rh = 2\<rparr>],
        pieces =
          [\<lparr>px = 0, py = 0, pw = 4, ph = 2, rotated = False, plid = ''a'',
              pllabel = ''top'', plfurniture = ''box'', plcolor = ''red'',
              origW = 4, origH = 2\<rparr>,
           \<lparr>px = 0, py = 2, pw = - 2, ph = 1, rotated = False, plid = ''c'',
              pllabel = ''rail'', plfurniture = ''box'', plcolor = ''red'',
              origW = - 2, origH = 1\<rparr>],
        usedArea = 6\<rparr>,
      \<lparr>freeRects = [\<lparr>rx = 3, ry = 0, rw = 1, rh = 4\<rparr>, \<lparr>rx = 0, ry = 3, rw = 4, rh = 1\<rparr>],
        pieces =
          [\<lparr>px = 0, py = 0, pw = 3, ph = 3, rotated = False, plid = ''b'',
              pllabel = ''side'', plfurniture = ''box'', plcolor = ''red'',
              origW = 3, origH = 3\<rparr>],
        usedArea = 9\<rparr>]"
  let ?rA = "\<lparr>sheets = ?A, unplacedList = []\<rparr>"
  let ?rB = "\<lparr>sheets = ?B, unplacedList = []\<rparr>"
  assume "consolidateSheets ?cfg ?rA \<noteq> None"
  then obtain y where y: "consolidateSheets ?cfg ?rA = Some y" by blast
  have "\<not> (?cfg = ?cfg \<and> (?rA = ?rA \<or> ?rA = ?rB))"
  proof (rule consolidateSheets.raw_induct[where P = "\<lambda>c r y. \<not> (c = ?cfg \<and> (r = ?rA \<or> r = ?rB))", OF _ y])
    fix f cfg res z
    assume ih: "\<And>c r y. f c r = Some y \<Longrightarrow> \<not> (c = ?cfg \<and> (r = ?rA \<or> r = ?rB))"
      and eq: "(if length (sheets res) \<le> 1 then Some res
        else case consolidatePass cfg (sheets res) of
             (shs, improved) \<Rightarrow>
               if improved then f cfg (res\<lparr>sheets := shs\<rparr>)
               else Some (res\<lparr>sheets := shs\<rparr>)) = Some z"
    show "\<not> (cfg = ?cfg \<and> (res = ?rA \<or> res = ?rB))"
    proof
      assume h: "cfg = ?cfg \<and> (res = ?rA \<or> res = ?rB)"
      then consider (a) "cfg = ?cfg" "res = ?rA" | (b) "cfg = ?cfg" "res = ?rB" by blast
      then show False
      proof cases
        case a
        with eq consolidatePass_cycle(1) have "f ?cfg ?rB = Some z" by simp
        from ih[OF this] show False by simp
      next
        case b
        with eq consolidatePass_cycle(2) have "f ?cfg ?rA = Some z" by simp
        from ih[OF this] show False by simp
      qed
    qed
  qed
  then show False by simp
qed

lemma packPieces_cycles_on_negative_width:
  "packPieces
     [\<lparr>pid = ''a'', label = ''top'', furniture = ''box'', color = ''red'', width = 4, height = 2\<rparr>,
      \<lparr>pid = ''b'', label = ''side'', furniture = ''box'', color = ''red'', width = 3, height = 3\<rparr>,
      \<lparr>pid = ''c'', label = ''rail'', furniture = ''box'', color = ''red'', width = - 2, height = 1\<rparr>]
     \<lparr>sheetW = 4, sheetH = 4, kerf = 0, maxSheets = 2\<rparr> = None"
proof -
  have "selectBest \<lparr>sheetW = 4, sheetH = 4, kerf = 0, maxSheets = 2\<rparr>
          (strategyGrid \<lparr>sheetW = 4, sheetH = 4, kerf = 0, maxSheets = 2\<rparr>
             [\<lparr>pid = ''a'', label = ''top'', furniture = ''box'', color = ''red'', width = 4, height = 2\<rparr>,
      \<lparr>pid = ''b'', label = ''side'', furniture = ''box'', color = ''red'', width = 3, height = 3\<rparr>,
      \<lparr>pid = ''c'', label = ''rail'', furniture = ''box'', color = ''red'', width = - 2, height = 1\<rparr>]) None
        = Some \<lparr>sheets = [\<lparr>freeRects = [\<lparr>rx = 3, ry = 0, rw = 1, rh = 4\<rparr>, \<lparr>rx = 0, ry = 3, rw = 4, rh = 1\<rparr>],
        pieces =
          [\<lparr>px = 0, py = 0, pw = 3, ph = 3, rotated = False, plid = ''b'',
              pllabel = ''side'', plfurniture = ''box'', plcolor = ''red'',
              origW = 3, origH = 3\<rparr>,
           \<lparr>px = 3, py = 0, pw = 1, ph = - 2, rotated = True, plid = ''c'',
              pllabel = ''rail'', plfurniture = ''box'', plcolor = ''red'',
              origW = - 2, origH = 1\<rparr>],
        usedArea = 7\<rparr>,
      \<lparr>freeRects = [\<lparr>rx = 0, ry = 2, rw = 4, rh = 2\<rparr>],
        pieces =
          [\<lparr>px = 0, py = 0, pw = 4, ph = 2, rotated = False, plid = ''a'',
              pllabel = ''top'', plfurniture = ''box'', plcolor = ''red'',
              origW = 4, origH = 2\<rparr>],
        usedArea = 8\<rparr>],
                 unplacedList = []\<rparr>"
    by code_simp
  then show ?thesis
    by (simp add: packPieces_def consolidateSheets_cycles)
qed

section \<open>The sheet cap\<close>

lemma buildOutput_sheets: "length (r_sheets (buildOutput cfg b)) = length (sheets b)"
  by (simp add: buildOutput_def Let_def)

lemma packPieces_cap:
  assumes "0 \<le> maxSheets cfg" "packPieces ps cfg = Some (Inr res)"
  shows "int (length (r_sheets res)) \<le> maxSheets cfg"
proof (cases "length ps = 0")
  case True
  with assms show ?thesis by (auto simp: packPieces_def)
next
  case False
  from selectBest_grid[of cfg ps] obtain m where
    m: "selectBest cfg (strategyGrid cfg ps) None = Some m" "m \<in> set (strategyGrid cfg ps)"
    by blast
  from strategyGrid_cap[OF assms(1) m(2)] have c: "int (length (sheets m)) \<le> maxSheets cfg" .
  show ?thesis
  proof (cases "length (sheets m) > 1")
    case True
    with False m(1) assms(2) obtain b where
      b: "consolidateSheets cfg m = Some b" "res = buildOutput cfg b"
      by (auto simp: packPieces_def split: option.splits)
    from consolidateSheets_length[OF b(1)] c b(2) show ?thesis
      by (simp add: buildOutput_sheets)
  next
    case f: False
    with False m(1) assms(2) have "res = buildOutput cfg m"
      by (auto simp: packPieces_def)
    with c show ?thesis by (simp add: buildOutput_sheets)
  qed
qed

text \<open>
  Claim C4. With a sheet cap of at least one: the strategy runner, started from a state
  within the cap, stays within it after any number of pieces; a step that adds a sheet
  starts from a sheet count strictly below the cap; each result of the strategy grid is
  within the cap; a consolidation pass and the whole consolidation never return more
  sheets than they were given; a result that the engine returns has at most
  \<open>maxSheets\<close> sheets; and for pieces of positive width and height the engine does
  return such a result.
\<close>

theorem sheet_cap_respected:
  assumes "1 \<le> maxSheets cfg"
  shows "(\<forall>heur qs st. int (length (sheets st)) \<le> maxSheets cfg \<longrightarrow>
            int (length (sheets (runLoop cfg heur qs st))) \<le> maxSheets cfg) \<and>
         (\<forall>heur p st. length (sheets st) < length (sheets (packStep cfg heur p st)) \<longrightarrow>
            int (length (sheets st)) < maxSheets cfg) \<and>
         (\<forall>r \<in> set (strategyGrid cfg ps). int (length (sheets r)) \<le> maxSheets cfg) \<and>
         (\<forall>shs. shs \<noteq> [] \<longrightarrow> length (fst (consolidatePass cfg shs)) \<le> length shs) \<and>
         (\<forall>r r'. consolidateSheets cfg r = Some r' \<longrightarrow> length (sheets r') \<le> length (sheets r)) \<and>
         (\<forall>res. packPieces ps cfg = Some (Inr res) \<longrightarrow>
            int (length (r_sheets res)) \<le> maxSheets cfg) \<and>
         ((\<forall>p \<in> set ps. 0 < width p \<and> 0 < height p) \<longrightarrow>
            (\<exists>res. packPieces ps cfg = Some (Inr res) \<and>
                   int (length (r_sheets res)) \<le> maxSheets cfg))"
proof -
  have cap0: "0 \<le> maxSheets cfg" using assms by simp
  have a: "\<forall>heur qs st. int (length (sheets st)) \<le> maxSheets cfg \<longrightarrow>
            int (length (sheets (runLoop cfg heur qs st))) \<le> maxSheets cfg"
    using runLoop_cap by blast
  have b: "\<forall>heur p st. length (sheets st) < length (sheets (packStep cfg heur p st)) \<longrightarrow>
            int (length (sheets st)) < maxSheets cfg"
  proof (intro allI impI)
    fix heur p st assume "length (sheets st) < length (sheets (packStep cfg heur p st))"
    with packStep_length[of cfg heur p st] show "int (length (sheets st)) < maxSheets cfg"
      by auto
  qed
  have c: "\<forall>r \<in> set (strategyGrid cfg ps). int (length (sheets r)) \<le> maxSheets cfg"
    using strategyGrid_cap[OF cap0] by blast
  have d: "\<forall>shs. shs \<noteq> [] \<longrightarrow> length (fst (consolidatePass cfg shs)) \<le> length shs"
  proof (intro allI impI)
    fix shs :: "sheet list" assume ne: "shs \<noteq> []"
    obtain shs' improved where p: "consolidatePass cfg shs = (shs', improved)"
      by (cases "consolidatePass cfg shs") auto
    from consolidatePass_length[OF ne p] p show "length (fst (consolidatePass cfg shs)) \<le> length shs"
      by simp
  qed
  have e: "\<forall>r r'. consolidateSheets cfg r = Some r' \<longrightarrow> length (sheets r') \<le> length (sheets r)"
    using consolidateSheets_length by blast
  have f: "\<forall>res. packPieces ps cfg = Some (Inr res) \<longrightarrow>
            int (length (r_sheets res)) \<le> maxSheets cfg"
    using packPieces_cap[OF cap0] by blast
  have g: "(\<forall>p \<in> set ps. 0 < width p \<and> 0 < height p) \<longrightarrow>
            (\<exists>res. packPieces ps cfg = Some (Inr res) \<and>
                   int (length (r_sheets res)) \<le> maxSheets cfg)"
  proof
    assume pos: "\<forall>p \<in> set ps. 0 < width p \<and> 0 < height p"
    have "\<exists>res. packPieces ps cfg = Some (Inr res)"
    proof (cases "length ps = 0")
      case True
      then show ?thesis by (simp add: packPieces_def)
    next
      case False
      from selectBest_grid[of cfg ps] obtain m where
        m: "selectBest cfg (strategyGrid cfg ps) None = Some m" "m \<in> set (strategyGrid cfg ps)"
        by blast
      from consolidateSheets_returns[OF strategyGrid_sheetInv[OF pos m(2)], of cfg]
      obtain r' where "consolidateSheets cfg m = Some r'" by blast
      with False m(1) show ?thesis by (simp add: packPieces_def)
    qed
    with f show "\<exists>res. packPieces ps cfg = Some (Inr res) \<and>
                   int (length (r_sheets res)) \<le> maxSheets cfg" by blast
  qed
  from a b c d e f g show ?thesis by blast
qed

theorem sheet_cap_respected_witness:
  "1 \<le> maxSheets \<lparr>sheetW = 500, sheetH = 500, kerf = 0, maxSheets = 1\<rparr> \<and>
   packPieces
     [\<lparr>pid = ''a'', label = ''door'', furniture = ''cabinet'', color = ''red'', width = 400, height = 400\<rparr>,
      \<lparr>pid = ''b'', label = ''door'', furniture = ''cabinet'', color = ''red'', width = 400, height = 400\<rparr>]
     \<lparr>sheetW = 500, sheetH = 500, kerf = 0, maxSheets = 1\<rparr>
   = Some (Inr \<lparr>r_sheets =
          [\<lparr>o_pieces =
              [\<lparr>px = 0, py = 0, pw = 400, ph = 400, rotated = False,
                  plid = ''a'', pllabel = ''door'',
                  plfurniture = ''cabinet'', plcolor = ''red'', origW = 400,
                  origH = 400\<rparr>],
              wastePercent = Fin 36, o_usedArea = 160000,
              o_freeRects =
                [\<lparr>rx = 400, ry = 0, rw = 100, rh = 500\<rparr>,
                 \<lparr>rx = 0, ry = 400, rw = 500, rh = 100\<rparr>],
              largest =
                \<lparr>lf_w = 100, lf_h = 500, lf_area = 50000,
                   lf_pos = Some (400, 0)\<rparr>,
              totalFreeArea = 100000\<rparr>],
          r_unplaced =
            [\<lparr>pid = ''b'', label = ''door'', furniture = ''cabinet'',
                color = ''red'', width = 400, height = 400,
                reason = NoSheetsRemaining\<rparr>],
          suggestions =
            [\<lparr>s_type = FutureUse, s_sheet = 1,
                s_message = FutureUseMsg 1 100 500\<rparr>]\<rparr>) \<and>
   int (length (r_sheets \<lparr>r_sheets =
          [\<lparr>o_pieces =
              [\<lparr>px = 0, py = 0, pw = 400, ph = 400, rotated = False,
                  plid = ''a'', pllabel = ''door'',
                  plfurniture = ''cabinet'', plcolor = ''red'', origW = 400,
                  origH = 400\<rparr>],
              wastePercent = Fin 36, o_usedArea = 160000,
              o_freeRects =
                [\<lparr>rx = 400, ry = 0, rw = 100, rh = 500\<rparr>,
                 \<lparr>rx = 0, ry = 400, rw = 500, rh = 100\<rparr>],
              largest =
                \<lparr>lf_w = 100, lf_h = 500, lf_area = 50000,
                   lf_pos = Some (400, 0)\<rparr>,
              totalFreeArea = 100000\<rparr>],
          r_unplaced =
            [\<lparr>pid = ''b'', label = ''door'', furniture = ''cabinet'',
                color = ''red'', width = 400, height = 400,
                reason = NoSheetsRemaining\<rparr>],
          suggestions =
            [\<lparr>s_type = FutureUse, s_sheet = 1,
                s_message = FutureUseMsg 1 100 500\<rparr>]\<rparr>)) \<le> maxSheets \<lparr>sheetW = 500, sheetH = 500, kerf = 0, maxSheets = 1\<rparr>"
proof -
  let ?cfg = "\<lparr>sheetW = 500, sheetH = 500, kerf = 0, maxSheets = 1\<rparr>"
  let ?ps = "[\<lparr>pid = ''a'', label = ''door'', furniture = ''cabinet'', color = ''red'', width = 400, height = 400\<rparr>,
      \<lparr>pid = ''b'', label = ''door'', furniture = ''cabinet'', color = ''red'', width = 400, height = 400\<rparr>]"
  let ?res = "\<lparr>r_sheets =
          [\<lparr>o_pieces =
              [\<lparr>px = 0, py = 0, pw = 400, ph = 400, rotated = False,
                  plid = ''a'', pllabel = ''door'',
                  plfurniture = ''cabinet'', plcolor = ''red'', origW = 400,
                  origH = 400\<rparr>],
              wastePercent = Fin 36, o_usedArea = 160000,
              o_freeRects =
                [\<lparr>rx = 400, ry = 0, rw = 100, rh = 500\<rparr>,
                 \<lparr>rx = 0, ry = 400, rw = 500, rh = 100\<rparr>],
              largest =
                \<lparr>lf_w = 100, lf_h = 500, lf_area = 50000,
                   lf_pos = Some (400, 0)\<rparr>,
              totalFreeArea = 100000\<rparr>],
          r_unplaced =
            [\<lparr>pid = ''b'', label = ''door'', furniture = ''cabinet'',
                color = ''red'', width = 400, height = 400,
                reason = NoSheetsRemaining\<rparr>],
          suggestions =
            [\<lparr>s_type = FutureUse, s_sheet = 1,
                s_message = FutureUseMsg 1 100 500\<rparr>]\<rparr>"
  have c: "1 \<le> maxSheets ?cfg" by simp
  have e: "packPieces ?ps ?cfg = Some (Inr ?res)" by code_simp
  from sheet_cap_respected[OF c, of ?ps]
  have "\<forall>res. packPieces ?ps ?cfg = Some (Inr res) \<longrightarrow> int (length (r_sheets res)) \<le> maxSheets ?cfg"
    by blast
  with e have "int (length (r_sheets ?res)) \<le> maxSheets ?cfg" by blast
  with c e show ?thesis by blast
qed

section \<open>Determinism\<close>









section \<open>Placements stay within the sheet and clear of earlier footprints\<close>

lemma clearOf_contained: "isContained q r \<Longrightarrow> clearOf cfg p r \<Longrightarrow> clearOf cfg p q"
  by (auto simp: clearOf_def missesRect_def isContained_def)

lemma rectInSheet_contained: "isContained q r \<Longrightarrow> rectInSheet cfg r \<Longrightarrow> rectInSheet cfg q"
  by (auto simp: rectInSheet_def isContained_def)

lemma splitRect_inside:
  "q \<in> set (splitRect x y px2 py2 r) \<Longrightarrow> isContained q r \<and> missesRect x y px2 py2 q"
  using remainders_inside[of x y px2 py2 r q]
  by (auto simp: splitRect_def isContained_refl split: if_splits)

lemma placeRect_free:
  assumes "q \<in> set (freeRects (placeRect cfg sh x y w h))"
  shows "\<exists>r \<in> set (freeRects sh). isContained q r \<and>
           missesRect x y (min (x + (w + kerf cfg)) (sheetW cfg)) (min (y + (h + kerf cfg)) (sheetH cfg)) q"
proof -
  let ?px2 = "min (x + (w + kerf cfg)) (sheetW cfg)"
  let ?py2 = "min (y + (h + kerf cfg)) (sheetH cfg)"
  let ?cands = "concat (map (splitRect x y ?px2 ?py2) (freeRects sh))"
  have "freeRects (placeRect cfg sh x y w h)
          = freeRects (pruneFreeRects (sh\<lparr>freeRects := filter bigEnough ?cands\<rparr>))"
    by (simp add: placeRect_def Let_def)
  with assms pruneFreeRects_subset[of "sh\<lparr>freeRects := filter bigEnough ?cands\<rparr>"]
  have "q \<in> set ?cands" by auto
  then obtain r where "r \<in> set (freeRects sh)" "q \<in> set (splitRect x y ?px2 ?py2 r)" by auto
  with splitRect_inside[of q x y ?px2 ?py2 r] show ?thesis by blast
qed

lemma geomInv_newSheet: "geomInv cfg (newSheet cfg)"
  by (simp add: geomInv_def newSheet_def rectInSheet_def)

lemma geomInv_tryPlace:
  assumes t: "tryPlace cfg p sh heur = Some sh'" and inv: "geomInv cfg sh"
  shows "geomInv cfg sh'"
proof -
  from t obtain f where f: "findBestFit cfg sh (width p) (height p) heur = Some f"
    by (auto simp: tryPlace_def split: option.splits)
  let ?r0 = "fit_rect f"
  let ?pl = "\<lparr>px = rx ?r0, py = ry ?r0, pw = fit_w f, ph = fit_h f,
              rotated = fit_rotated f, plid = pid p, pllabel = label p,
              plfurniture = furniture p, plcolor = color p,
              origW = width p, origH = height p\<rparr>"
  let ?sh1 = "sh\<lparr>pieces := pieces sh @ [?pl], usedArea := usedArea sh + fit_w f * fit_h f\<rparr>"
  from t f have sh': "sh' = placeRect cfg ?sh1 (rx ?r0) (ry ?r0) (fit_w f) (fit_h f)"
    by (simp add: tryPlace_def Let_def)
  then have ps: "pieces sh' = pieces sh @ [?pl]" by simp
  from findBestFit_fits[OF f] have r0: "?r0 \<in> set (freeRects sh)"
    and fw: "fit_w f \<le> rw ?r0" and fh: "fit_h f \<le> rh ?r0" by simp_all
  from inv r0 have r0in: "rectInSheet cfg ?r0" and r0clear: "\<forall>a \<in> set (pieces sh). clearOf cfg a ?r0"
    by (simp_all add: geomInv_def)
  have raw: "isContained (rawRect ?pl) ?r0"
    using fw fh by (simp add: rawRect_def isContained_def)
  have within: "withinSheet cfg ?pl"
    using r0in fw fh by (simp add: withinSheet_def rectInSheet_def)
  have rawclear: "\<forall>a \<in> set (pieces sh). clearOf cfg a (rawRect ?pl)"
    using r0clear clearOf_contained[OF raw] by blast
  have free: "rectInSheet cfg q \<and> (\<forall>a \<in> set (pieces sh'). clearOf cfg a q)"
    if q: "q \<in> set (freeRects sh')" for q
  proof -
    from q sh' placeRect_free[of q cfg ?sh1 "rx ?r0" "ry ?r0" "fit_w f" "fit_h f"]
    obtain r where r: "r \<in> set (freeRects sh)" "isContained q r"
      and m: "missesRect (rx ?r0) (ry ?r0) (min (rx ?r0 + (fit_w f + kerf cfg)) (sheetW cfg))
                (min (ry ?r0 + (fit_h f + kerf cfg)) (sheetH cfg)) q"
      by auto
    from inv r(1) have "rectInSheet cfg r" and "\<forall>a \<in> set (pieces sh). clearOf cfg a r"
      by (simp_all add: geomInv_def)
    with r(2) have a: "rectInSheet cfg q" and b: "\<forall>a \<in> set (pieces sh). clearOf cfg a q"
      using rectInSheet_contained clearOf_contained by blast+
    from m have "clearOf cfg ?pl q"
      by (simp add: clearOf_def footprintX2_def footprintY2_def add.assoc)
    with a b ps show ?thesis by simp
  qed
  from inv have old: "\<forall>a \<in> set (pieces sh). withinSheet cfg a"
    and srt: "sorted_wrt (\<lambda>a b. clearOf cfg a (rawRect b)) (pieces sh)"
    by (simp_all add: geomInv_def)
  from srt rawclear have "sorted_wrt (\<lambda>a b. clearOf cfg a (rawRect b)) (pieces sh @ [?pl])"
    by (simp add: sorted_wrt_append)
  with free old within ps show ?thesis by (simp add: geomInv_def)
qed

lemma packStep_geomInv:
  assumes "\<forall>s \<in> set (sheets st). geomInv cfg s"
  shows "\<forall>s \<in> set (sheets (packStep cfg heur p st)). geomInv cfg s"
proof -
  consider (same) "sheets (packStep cfg heur p st) = sheets st"
    | (upd) i s' where "i < length (sheets st)" "tryPlace cfg p (sheets st ! i) heur = Some s'"
        "sheets (packStep cfg heur p st) = (sheets st)[i := s']"
    | (new) s where "tryPlace cfg p (newSheet cfg) heur = Some s"
        "sheets (packStep cfg heur p st) = sheets st @ [s]"
    using packStep_sheets[of cfg heur p st] by blast
  then show ?thesis
  proof cases
    case same
    with assms show ?thesis by simp
  next
    case upd
    from upd(1) assms have "geomInv cfg (sheets st ! i)" by simp
    from geomInv_tryPlace[OF upd(2) this] have "geomInv cfg s'" .
    with assms upd(3) show ?thesis
      using set_update_subset_insert[of "sheets st" i s'] by auto
  next
    case new
    from geomInv_tryPlace[OF new(1) geomInv_newSheet] have "geomInv cfg s" .
    with assms new(2) show ?thesis by auto
  qed
qed

lemma runLoop_geomInv:
  "\<forall>s \<in> set (sheets st). geomInv cfg s \<Longrightarrow>
   \<forall>s \<in> set (sheets (runLoop cfg heur ps st)). geomInv cfg s"
proof (induction ps arbitrary: st)
  case Nil
  then show ?case by simp
next
  case (Cons p ps)
  from Cons.IH[OF packStep_geomInv[OF Cons.prems]] show ?case by simp
qed

lemma strategyGrid_geomInv:
  assumes "r \<in> set (strategyGrid cfg ps)"
  shows "\<forall>s \<in> set (sheets r). geomInv cfg s"
proof -
  from strategyGrid_member[OF assms] obtain sortFn heur where
    r: "r = runLoop cfg heur (sortBy sortFn ps) \<lparr>sheets = [], unplacedList = []\<rparr>" by blast
  from runLoop_geomInv[of "\<lparr>sheets = [], unplacedList = []\<rparr>" cfg heur "sortBy sortFn ps"] r
  show ?thesis by simp
qed

lemma tryEarlier_geomInv:
  "tryEarlier cfg fp es = Some es' \<Longrightarrow> \<forall>e \<in> set es. geomInv cfg e \<Longrightarrow> \<forall>e \<in> set es'. geomInv cfg e"
proof (induction es arbitrary: es')
  case Nil
  then show ?case by simp
next
  case (Cons e es)
  show ?case
  proof (cases "findBestFit cfg e (width fp) (height fp) BSSF")
    case None
    with Cons.prems(1) obtain t where t: "tryEarlier cfg fp es = Some t" "es' = e # t"
      by auto
    from Cons.IH[OF t(1)] Cons.prems(2) t(2) show ?thesis by simp
  next
    case (Some f)
    then obtain e' where e': "tryPlace cfg fp e BSSF = Some e'"
      using tryPlace_iff_fit[of cfg fp e BSSF] by auto
    with Some Cons.prems(1) have "es' = e' # es" by simp
    moreover from geomInv_tryPlace[OF e'] Cons.prems(2) have "geomInv cfg e'" by simp
    ultimately show ?thesis using Cons.prems(2) by simp
  qed
qed

lemma moveLoop_geomInv:
  "moveLoop cfg ps es = (es', moved) \<Longrightarrow> \<forall>e \<in> set es. geomInv cfg e \<Longrightarrow>
   \<forall>e \<in> set es'. geomInv cfg e"
proof (induction ps arbitrary: es es' moved)
  case Nil
  then show ?case by simp
next
  case (Cons p ps)
  show ?case
  proof (cases "tryEarlier cfg (fakePiece p) es")
    case None
    with Cons.prems(1) obtain m where "moveLoop cfg ps es = (es', m)"
      by (auto split: prod.splits)
    from Cons.IH[OF this Cons.prems(2)] show ?thesis .
  next
    case (Some e1)
    with Cons.prems(1) obtain m where "moveLoop cfg ps e1 = (es', m)"
      by (auto split: prod.splits)
    from Cons.IH[OF this tryEarlier_geomInv[OF Some Cons.prems(2)]] show ?thesis .
  qed
qed

lemma rebuild_geomInv: "geomInv cfg sh \<Longrightarrow> geomInv cfg (rebuild cfg ps sh)"
proof (induction ps arbitrary: sh)
  case Nil
  then show ?case by simp
next
  case (Cons p ps)
  show ?case
  proof (cases "tryPlace cfg (fakePiece p) sh BSSF")
    case None
    with Cons show ?thesis by simp
  next
    case (Some sh')
    from Cons.IH[OF geomInv_tryPlace[OF Some Cons.prems]] Some show ?thesis by simp
  qed
qed

lemma consolidatePass_geomInv:
  assumes inv: "\<forall>s \<in> set shs. geomInv cfg s" and ne: "shs \<noteq> []"
    and pass: "consolidatePass cfg shs = (shs', improved)"
  shows "\<forall>s \<in> set shs'. geomInv cfg s"
proof -
  let ?srt = "sortSheets shs"
  let ?L = "last ?srt"
  obtain e' moved where ml: "moveLoop cfg (pieces ?L) (butlast ?srt) = (e', moved)"
    by (cases "moveLoop cfg (pieces ?L) (butlast ?srt)") auto
  let ?R = "rebuild cfg (remaining (pieces ?L) moved) (newSheet cfg)"
  have sne: "?srt \<noteq> []" using ne sortSheets_props(1)[of shs] by auto
  then have "?L \<in> set shs" using sortSheets_props(2)[of shs] last_in_set by blast
  with inv have Linv: "geomInv cfg ?L" by blast
  have "\<forall>e \<in> set (butlast ?srt). geomInv cfg e"
    using inv sortSheets_props(2)[of shs] by (auto dest: in_set_butlastD)
  from moveLoop_geomInv[OF ml this] have einv: "\<forall>e \<in> set e'. geomInv cfg e" .
  have Rinv: "geomInv cfg ?R" by (rule rebuild_geomInv[OF geomInv_newSheet])
  have "shs' = e' \<or> shs' = e' @ [?R] \<or> shs' = e' @ [?L]"
    using pass ml by (auto simp: consolidatePass_def Let_def split: if_splits)
  with einv Rinv Linv show ?thesis by auto
qed

lemma consolidateSheets_geomInv:
  assumes "consolidateSheets cfg r = Some r'"
  shows "(\<forall>s \<in> set (sheets r). geomInv cfg s) \<longrightarrow> (\<forall>s \<in> set (sheets r'). geomInv cfg s)"
proof (rule consolidateSheets.raw_induct[where P = "\<lambda>cfg r r'.
         (\<forall>s \<in> set (sheets r). geomInv cfg s) \<longrightarrow> (\<forall>s \<in> set (sheets r'). geomInv cfg s)", OF _ assms])
  fix f cfg res y
  assume ih: "\<And>c r y. f c r = Some y \<Longrightarrow>
         (\<forall>s \<in> set (sheets r). geomInv c s) \<longrightarrow> (\<forall>s \<in> set (sheets y). geomInv c s)"
    and eq: "(if length (sheets res) \<le> 1 then Some res
      else case consolidatePass cfg (sheets res) of
           (shs, improved) \<Rightarrow>
             if improved then f cfg (res\<lparr>sheets := shs\<rparr>)
             else Some (res\<lparr>sheets := shs\<rparr>)) = Some y"
  show "(\<forall>s \<in> set (sheets res). geomInv cfg s) \<longrightarrow> (\<forall>s \<in> set (sheets y). geomInv cfg s)"
  proof
    assume inv: "\<forall>s \<in> set (sheets res). geomInv cfg s"
    show "\<forall>s \<in> set (sheets y). geomInv cfg s"
    proof (cases "length (sheets res) \<le> 1")
      case True
      with eq inv show ?thesis by auto
    next
      case False
      then have ne: "sheets res \<noteq> []" by auto
      obtain shs' improved where p: "consolidatePass cfg (sheets res) = (shs', improved)"
        by (cases "consolidatePass cfg (sheets res)") auto
      from consolidatePass_geomInv[OF inv ne p] have inv': "\<forall>s \<in> set shs'. geomInv cfg s" .
      show ?thesis
      proof (cases improved)
        case True
        with False p eq have "f cfg (res\<lparr>sheets := shs'\<rparr>) = Some y" by simp
        from ih[OF this] inv' show ?thesis by simp
      next
        case f: False
        with False p eq have "y = res\<lparr>sheets := shs'\<rparr>" by simp
        with inv' show ?thesis by simp
      qed
    qed
  qed
qed

text \<open>
  What holds of the placements on every input: in a returned result each placed piece
  lies within the sheet, and on each sheet the rectangle of a piece is clear of the
  kerf-widened, clipped footprint of every piece placed on that sheet before it. The
  converse direction, a piece against the footprint of a later one, is the one that
  fails at the input of claim C1.
\<close>

lemma placements_within_sheet_and_clear:
  assumes "packPieces ps cfg = Some (Inr res)" and "sh \<in> set (r_sheets res)"
  shows "(\<forall>p \<in> set (o_pieces sh). withinSheet cfg p) \<and>
         sorted_wrt (\<lambda>a b. clearOf cfg a (rawRect b)) (o_pieces sh)"
proof (cases "length ps = 0")
  case True
  with assms show ?thesis by (auto simp: packPieces_def)
next
  case False
  from selectBest_grid[of cfg ps] obtain m where
    m: "selectBest cfg (strategyGrid cfg ps) None = Some m" "m \<in> set (strategyGrid cfg ps)"
    by blast
  from strategyGrid_geomInv[OF m(2)] have minv: "\<forall>s \<in> set (sheets m). geomInv cfg s" .
  have "\<exists>b. res = buildOutput cfg b \<and> (\<forall>s \<in> set (sheets b). geomInv cfg s)"
  proof (cases "length (sheets m) > 1")
    case True
    with False m(1) assms(1) obtain b where
      b: "consolidateSheets cfg m = Some b" "res = buildOutput cfg b"
      by (auto simp: packPieces_def split: option.splits)
    from consolidateSheets_geomInv[OF b(1)] minv b(2) show ?thesis by blast
  next
    case f: False
    with False m(1) assms(1) have "res = buildOutput cfg m"
      by (auto simp: packPieces_def)
    with minv show ?thesis by blast
  qed
  then obtain b where b: "res = buildOutput cfg b" "\<forall>s \<in> set (sheets b). geomInv cfg s" by blast
  from assms(2) b(1) obtain s where s: "s \<in> set (sheets b)" "sh = outSheetOf cfg s"
    by (auto simp: buildOutput_def Let_def)
  with b(2) have "geomInv cfg s" by blast
  with s(2) show ?thesis by (simp add: geomInv_def outSheetOf_def)
qed

section \<open>Pieces are never duplicated, and none is lost before the consolidation\<close>

lemma truncate_mkUnplaced: "piece.truncate (mkUnplaced p r) = p"
  by (simp add: piece.truncate_def mkUnplaced_def)

lemma placedOn_simps [simp]:
  "placedOn [] = {#}"
  "placedOn (s # shs) = mset (map fakePiece (pieces s)) + placedOn shs"
  "placedOn (shs @ shs') = placedOn shs + placedOn shs'"
  by (simp_all add: placedOn_def)

lemma placedOn_perm: "mset shs = mset shs' \<Longrightarrow> placedOn shs = placedOn shs'"
proof -
  assume "mset shs = mset shs'"
  then have "mset (map (\<lambda>s. mset (map fakePiece (pieces s))) shs)
           = mset (map (\<lambda>s. mset (map fakePiece (pieces s))) shs')" by (metis mset_map)
  then have "sum_list (map (\<lambda>s. mset (map fakePiece (pieces s))) shs)
           = sum_list (map (\<lambda>s. mset (map fakePiece (pieces s))) shs')"
    by (metis sum_mset_sum_list)
  moreover have "placedOn xs = sum_list (map (\<lambda>s. mset (map fakePiece (pieces s))) xs)" for xs
    by (induction xs) simp_all
  ultimately show ?thesis by simp
qed

lemma placedOn_update:
  "i < length shs \<Longrightarrow>
   mset (map fakePiece (pieces s')) = add_mset p (mset (map fakePiece (pieces (shs ! i)))) \<Longrightarrow>
   placedOn (shs[i := s']) = add_mset p (placedOn shs)"
proof (induction shs arbitrary: i)
  case Nil
  then show ?case by simp
next
  case (Cons s shs)
  then show ?case by (cases i) simp_all
qed

lemma tryPlace_placed:
  assumes "tryPlace cfg p sh heur = Some sh'"
  shows "mset (map fakePiece (pieces sh')) = add_mset p (mset (map fakePiece (pieces sh)))"
proof -
  from tryPlace_Some[OF assms] obtain pl where "pieces sh' = pieces sh @ [pl]" "fakePiece pl = p"
    by blast
  then show ?thesis by simp
qed

lemma bestSheet_index:
  "bestSheet cfg heur p ss k bst = Some (i, sc) \<Longrightarrow>
   bst = Some (i, sc) \<or>
   (k \<le> i \<and> i < k + length ss \<and> findBestFit cfg (ss ! (i - k)) (width p) (height p) heur \<noteq> None)"
proof (induction ss arbitrary: k bst)
  case Nil
  then show ?case by simp
next
  case (Cons s ss)
  let ?nxt = "case findBestFit cfg s (width p) (height p) heur of
          None \<Rightarrow> bst
        | Some f \<Rightarrow>
            if (case bst of None \<Rightarrow> True | Some (_, bs) \<Rightarrow> isBetterScore (fit_score f) bs)
            then Some (k, fit_score f) else bst"
  from Cons.prems have "bestSheet cfg heur p ss (k + 1) ?nxt = Some (i, sc)" by simp
  from Cons.IH[OF this] consider (here) "?nxt = Some (i, sc)"
    | (later) "k + 1 \<le> i" "i < k + 1 + length ss"
        "findBestFit cfg (ss ! (i - (k + 1))) (width p) (height p) heur \<noteq> None"
    by blast
  then show ?case
  proof cases
    case here
    then show ?thesis
      by (cases "findBestFit cfg s (width p) (height p) heur") (auto split: if_splits)
  next
    case later
    then have "(s # ss) ! (i - k) = ss ! (i - (k + 1))" by (simp add: nth_Cons')
    with later show ?thesis by simp
  qed
qed

lemma packStep_accounted: "accounted (packStep cfg heur p st) = add_mset p (accounted st)"
proof (cases "fitsAtAll cfg p")
  case False
  then show ?thesis by (simp add: packStep_def accounted_def truncate_mkUnplaced)
next
  case True
  show ?thesis
  proof (cases "bestSheet cfg heur p (sheets st) 0 None")
    case None
    show ?thesis
    proof (cases "tryPlace cfg p (newSheet cfg) heur")
      case n: None
      with True None show ?thesis
        by (simp add: packStep_def accounted_def truncate_mkUnplaced)
    next
      case (Some s)
      from tryPlace_placed[OF Some] have "mset (map fakePiece (pieces s)) = {#p#}"
        by (simp add: newSheet_def)
      with True None Some show ?thesis
        by (simp add: packStep_def accounted_def truncate_mkUnplaced)
    qed
  next
    case (Some a)
    obtain i sc where a: "a = (i, sc)" by (cases a)
    from bestSheet_index[of cfg heur p "sheets st" 0 None i sc] Some a
    have i: "i < length (sheets st)"
      and fit: "findBestFit cfg (sheets st ! i) (width p) (height p) heur \<noteq> None" by simp_all
    from fit obtain s' where s': "tryPlace cfg p (sheets st ! i) heur = Some s'"
      using tryPlace_iff_fit[of cfg p "sheets st ! i" heur] by auto
    from placedOn_update[OF i tryPlace_placed[OF s']] True Some a s' show ?thesis
      by (simp add: packStep_def accounted_def)
  qed
qed

lemma runLoop_accounted: "accounted (runLoop cfg heur ps st) = mset ps + accounted st"
  by (induction ps arbitrary: st) (simp_all add: packStep_accounted)

lemma strategyGrid_accounted:
  assumes "r \<in> set (strategyGrid cfg ps)"
  shows "accounted r = mset ps"
proof -
  from strategyGrid_member[OF assms] obtain sortFn heur where
    r: "r = runLoop cfg heur (sortBy sortFn ps) \<lparr>sheets = [], unplacedList = []\<rparr>" by blast
  have "accounted \<lparr>sheets = [], unplacedList = []\<rparr> = {#}" by (simp add: accounted_def)
  with r show ?thesis by (simp add: runLoop_accounted mset_sortBy)
qed

lemma tryEarlier_placed:
  "tryEarlier cfg fp es = Some es' \<Longrightarrow> placedOn es' = add_mset fp (placedOn es)"
proof (induction es arbitrary: es')
  case Nil
  then show ?case by simp
next
  case (Cons e es)
  show ?case
  proof (cases "findBestFit cfg e (width fp) (height fp) BSSF")
    case None
    with Cons.prems obtain t where t: "tryEarlier cfg fp es = Some t" "es' = e # t" by auto
    from Cons.IH[OF t(1)] t(2) show ?thesis by simp
  next
    case (Some f)
    then obtain e' where e': "tryPlace cfg fp e BSSF = Some e'"
      using tryPlace_iff_fit[of cfg fp e BSSF] by auto
    with Some Cons.prems have "es' = e' # es" by simp
    with tryPlace_placed[OF e'] show ?thesis by simp
  qed
qed

lemma moveLoop_placed:
  "moveLoop cfg ps es = (es', moved) \<Longrightarrow>
   placedOn es' = placedOn es + mset (map fakePiece (movedPieces ps moved)) \<and>
   mset (map fakePiece ps)
     = mset (map fakePiece (movedPieces ps moved)) + mset (map fakePiece (remaining ps moved))"
proof (induction ps arbitrary: es es' moved)
  case Nil
  then show ?case by (simp add: movedPieces_def remaining_def)
next
  case (Cons p ps)
  show ?case
  proof (cases "tryEarlier cfg (fakePiece p) es")
    case None
    with Cons.prems obtain m where m: "moveLoop cfg ps es = (es', m)" "moved = False # m"
      by (auto split: prod.splits)
    from Cons.IH[OF m(1)] m(2) show ?thesis by (simp add: movedPieces_def remaining_def)
  next
    case (Some e1)
    with Cons.prems obtain m where m: "moveLoop cfg ps e1 = (es', m)" "moved = True # m"
      by (auto split: prod.splits)
    from Cons.IH[OF m(1)] tryEarlier_placed[OF Some] m(2) show ?thesis
      by (simp add: movedPieces_def remaining_def)
  qed
qed

lemma rebuild_placed:
  "mset (map fakePiece (pieces (rebuild cfg ps sh)))
     \<subseteq># mset (map fakePiece (pieces sh)) + mset (map fakePiece ps)"
proof (induction ps arbitrary: sh)
  case Nil
  then show ?case by simp
next
  case (Cons p ps)
  show ?case
  proof (cases "tryPlace cfg (fakePiece p) sh BSSF")
    case None
    have "mset (map fakePiece (pieces sh)) + mset (map fakePiece ps)
            \<subseteq># mset (map fakePiece (pieces sh)) + mset (map fakePiece (p # ps))" by simp
    with Cons.IH[of sh] None show ?thesis by (auto intro: subset_mset.order_trans)
  next
    case (Some sh')
    from Cons.IH[of sh'] tryPlace_placed[OF Some] Some show ?thesis by simp
  qed
qed

lemma movedPieces_none: "filter id moved = [] \<Longrightarrow> movedPieces ps moved = []"
  by (auto simp: movedPieces_def filter_empty_conv dest: set_zip_rightD)

lemma consolidatePass_placed:
  assumes ne: "shs \<noteq> []" and pass: "consolidatePass cfg shs = (shs', improved)"
  shows "placedOn shs' \<subseteq># placedOn shs"
proof -
  let ?srt = "sortSheets shs"
  let ?L = "last ?srt"
  let ?ps = "pieces ?L"
  obtain e' moved where ml: "moveLoop cfg ?ps (butlast ?srt) = (e', moved)"
    by (cases "moveLoop cfg ?ps (butlast ?srt)") auto
  let ?n = "length (filter id moved)"
  let ?R = "rebuild cfg (remaining ?ps moved) (newSheet cfg)"
  let ?M = "mset (map fakePiece (movedPieces ?ps moved))"
  let ?Rem = "mset (map fakePiece (remaining ?ps moved))"
  have sne: "?srt \<noteq> []" using ne sortSheets_props(1)[of shs] by auto
  then have "?srt = butlast ?srt @ [?L]" by simp
  then have "placedOn ?srt = placedOn (butlast ?srt) + mset (map fakePiece ?ps)"
    by (metis placedOn_simps(1,2,3) add.right_neutral)
  moreover have "placedOn ?srt = placedOn shs"
    by (rule placedOn_perm) (simp add: sortSheets_def mset_sortBy)
  ultimately have total: "placedOn shs = placedOn (butlast ?srt) + mset (map fakePiece ?ps)" by simp
  from moveLoop_placed[OF ml] have e: "placedOn e' = placedOn (butlast ?srt) + ?M"
    and split: "mset (map fakePiece ?ps) = ?M + ?Rem" by simp_all
  have res: "(shs', improved) =
      (if ?n > 0 then (if ?n = length ?ps then (e', True) else (e' @ [?R], True))
       else (e' @ [?L], False))"
    using pass ml by (simp add: consolidatePass_def Let_def)
  consider (none) "?n = 0" | (all) "?n > 0" "?n = length ?ps" | (some) "?n > 0" "?n \<noteq> length ?ps"
    by blast
  then show ?thesis
  proof cases
    case none
    with res have "shs' = e' @ [?L]" by simp
    moreover from none have "?M = {#}" by (simp add: movedPieces_none)
    ultimately show ?thesis using e total by simp
  next
    case all
    with res have "shs' = e'" by simp
    with e total split show ?thesis by simp
  next
    case some
    with res have "shs' = e' @ [?R]" by simp
    moreover from rebuild_placed[of cfg "remaining ?ps moved" "newSheet cfg"]
    have "mset (map fakePiece (pieces ?R)) \<subseteq># ?Rem" by (simp add: newSheet_def)
    ultimately show ?thesis using e total split by simp
  qed
qed

lemma consolidateSheets_placed:
  assumes "consolidateSheets cfg r = Some r'"
  shows "placedOn (sheets r') \<subseteq># placedOn (sheets r) \<and> unplacedList r' = unplacedList r"
proof (rule consolidateSheets.raw_induct[where P = "\<lambda>cfg r r'.
         placedOn (sheets r') \<subseteq># placedOn (sheets r) \<and> unplacedList r' = unplacedList r", OF _ assms])
  fix f cfg res y
  assume ih: "\<And>c r y. f c r = Some y \<Longrightarrow>
         placedOn (sheets y) \<subseteq># placedOn (sheets r) \<and> unplacedList y = unplacedList r"
    and eq: "(if length (sheets res) \<le> 1 then Some res
      else case consolidatePass cfg (sheets res) of
           (shs, improved) \<Rightarrow>
             if improved then f cfg (res\<lparr>sheets := shs\<rparr>)
             else Some (res\<lparr>sheets := shs\<rparr>)) = Some y"
  show "placedOn (sheets y) \<subseteq># placedOn (sheets res) \<and> unplacedList y = unplacedList res"
  proof (cases "length (sheets res) \<le> 1")
    case True
    with eq show ?thesis by auto
  next
    case False
    then have ne: "sheets res \<noteq> []" by auto
    obtain shs' improved where p: "consolidatePass cfg (sheets res) = (shs', improved)"
      by (cases "consolidatePass cfg (sheets res)") auto
    from consolidatePass_placed[OF ne p] have l: "placedOn shs' \<subseteq># placedOn (sheets res)" .
    show ?thesis
    proof (cases improved)
      case True
      with False p eq have "f cfg (res\<lparr>sheets := shs'\<rparr>) = Some y" by simp
      from ih[OF this] l show ?thesis by (auto intro: subset_mset.order_trans)
    next
      case f: False
      with False p eq have "y = res\<lparr>sheets := shs'\<rparr>" by simp
      with l show ?thesis by simp
    qed
  qed
qed

text \<open>
  What holds of the pieces on every input: the attempt that wins the strategy grid
  accounts for every input piece exactly once, placed or unplaced; the consolidation
  leaves the unplaced entries alone and places no piece that was not placed before;
  so a returned result holds no piece more often than the input does. That it may hold
  a piece less often is the defect shown at the input of claim C2.
\<close>

lemma pieces_never_duplicated:
  assumes "packPieces ps cfg = Some (Inr res)"
  shows "mset (map fakePiece (concat (map o_pieces (r_sheets res)))) +
         mset (map piece.truncate (r_unplaced res)) \<subseteq># mset ps"
proof (cases "length ps = 0")
  case True
  with assms show ?thesis by (auto simp: packPieces_def)
next
  case False
  from selectBest_grid[of cfg ps] obtain m where
    m: "selectBest cfg (strategyGrid cfg ps) None = Some m" "m \<in> set (strategyGrid cfg ps)"
    by blast
  from strategyGrid_accounted[OF m(2)] have acc: "accounted m = mset ps" .
  have "\<exists>b. res = buildOutput cfg b \<and> accounted b \<subseteq># accounted m"
  proof (cases "length (sheets m) > 1")
    case True
    with False m(1) assms obtain b where
      b: "consolidateSheets cfg m = Some b" "res = buildOutput cfg b"
      by (auto simp: packPieces_def split: option.splits)
    from consolidateSheets_placed[OF b(1)] have "accounted b \<subseteq># accounted m"
      by (simp add: accounted_def)
    with b(2) show ?thesis by blast
  next
    case f: False
    with False m(1) assms have "res = buildOutput cfg m" by (auto simp: packPieces_def)
    then show ?thesis by blast
  qed
  then obtain b where b: "res = buildOutput cfg b" "accounted b \<subseteq># accounted m" by blast
  have "map o_pieces (r_sheets res) = map pieces (sheets b)"
    using b(1) by (simp add: buildOutput_def Let_def outSheetOf_def)
  moreover have "r_unplaced res = unplacedList b" using b(1) by (simp add: buildOutput_def Let_def)
  ultimately show ?thesis using b(2) acc by (simp add: accounted_def placedOn_def)
qed

end
